theory Spec2Isabelle
  imports Complex_Main
begin

section \<open>Data model\<close>

text \<open>
  The embedding follows \<^verbatim>\<open>occlusion_based.py\<close>.  Python floats are modelled as
  \<^typ>\<open>real\<close> (the code only compares, selects and copies scores, it never does
  arithmetic on them; NaN and infinities are outside the model).

  Every exception the code can raise is a value of \<open>error\<close>:
  \<^item> \<open>KeyError\<close>: \<^verbatim>\<open>score_dict[label]\<close> on a missing label;
  \<^item> \<open>ValueError\<close>: \<^verbatim>\<open>max([])\<close>, \<^verbatim>\<open>list.index\<close> of an absent value, a numpy
    stacking or reshaping of incompatible shapes;
  \<^item> \<open>ShapeMismatch\<close>: the failure of \<^verbatim>\<open>format_detection\<close>.
\<close>

datatype error = KeyError | ValueError | ShapeMismatch

text \<open>
  A two-dimensional numpy array: its number of columns (which an array with no row still
  has) and its rows.
\<close>

datatype ndarray = NDArray (ncols: nat) (rows: "real list list")

definition nrows :: "ndarray \<Rightarrow> nat" where
  "nrows a = length (rows a)"

text \<open>
  \<^verbatim>\<open>AxisAlignedBoundingBox\<close>: the two corner vertices.  A \<^verbatim>\<open>Dict[Hashable, float]\<close> is
  an association list, in insertion order (the order of \<^verbatim>\<open>keys()\<close>); a well-formed
  dictionary has distinct keys.
\<close>

record bbox =
  min_vertex :: "real list"
  max_vertex :: "real list"

type_synonym 'k score_dict = "('k \<times> real) list"

type_synonym 'k detection = "bbox \<times> 'k score_dict"

section \<open>numpy and builtin operations used by the code\<close>

text \<open>\<^verbatim>\<open>np.vstack((a, b))\<close> of two 2-D arrays: the column counts must agree.\<close>

definition vstack :: "ndarray \<Rightarrow> ndarray \<Rightarrow> error + ndarray" where
  "vstack a b =
     (if ncols a = ncols b then Inr (NDArray (ncols a) (rows a @ rows b))
      else Inl ValueError)"

text \<open>A Python list stacked under a 2-D array is first made a one-row array.\<close>

definition atleast_2d :: "real list \<Rightarrow> ndarray" where
  "atleast_2d r = NDArray (length r) [r]"

text \<open>
  \<^verbatim>\<open>a.shape = (0, c)\<close>: an in-place reshape, which numpy refuses unless \<open>a\<close> has no
  element.
\<close>

definition set_shape_0 :: "ndarray \<Rightarrow> nat \<Rightarrow> error + ndarray" where
  "set_shape_0 a c =
     (if nrows a * ncols a = 0 then Inr (NDArray c []) else Inl ValueError)"

text \<open>\<^verbatim>\<open>np.tile(pad_row, (n, 1))\<close>.\<close>

definition tile :: "real list \<Rightarrow> nat \<Rightarrow> ndarray" where
  "tile r n = NDArray (length r) (replicate n r)"

text \<open>\<^verbatim>\<open>max(xs)\<close> and \<^verbatim>\<open>xs.index(v)\<close>.\<close>

fun py_max :: "'a::linorder list \<Rightarrow> error + 'a" where
  "py_max [] = Inl ValueError"
| "py_max (x # xs) = Inr (fold max xs x)"

fun py_index :: "'a list \<Rightarrow> 'a \<Rightarrow> error + nat" where
  "py_index [] v = Inl ValueError"
| "py_index (x # xs) v =
     (if x = v then Inr 0
      else (case py_index xs v of Inl e \<Rightarrow> Inl e | Inr i \<Rightarrow> Inr (Suc i)))"

section \<open>The Detection Matrix Formatter\<close>

text \<open>
  Modelled from the spec: \<^verbatim>\<open>format_detection\<close> lives in
  \<^verbatim>\<open>xaitk_saliency.utils.detection\<close>, which is not among the sources.  Section 4.1 of the
  specification: given the boxes (D x 4), the score matrix (D x C) and an optional
  objectness vector (D), produce the D x (4+1+C) matrix by horizontal concatenation in the
  order bbox, objectness, class scores; the objectness defaults to 1.0 for every
  detection; it fails if the counts of boxes, score rows and objectness entries are not
  all equal.
\<close>

definition format_detection ::
  "ndarray \<Rightarrow> ndarray \<Rightarrow> real list option \<Rightarrow> error + ndarray" where
  "format_detection bbox_mat classification_mat objectness =
     (let obj = (case objectness of None \<Rightarrow> replicate (nrows bbox_mat) 1 | Some v \<Rightarrow> v)
      in if nrows bbox_mat = nrows classification_mat \<and> length obj = nrows bbox_mat
         then Inr (NDArray (4 + 1 + ncols classification_mat)
                    (map (\<lambda>(b, ob, c). b @ [ob] @ c)
                       (zip (rows bbox_mat) (zip obj (rows classification_mat)))))
         else Inl ShapeMismatch)"

section \<open>The Batch Alignment Engine\<close>

text \<open>The local variables of \<^verbatim>\<open>_dets_to_formatted_mat\<close> that live across iterations.\<close>

record 'k locals =
  labels :: "'k list"
  num_classes :: nat
  dets_mat_list :: "ndarray list"
  img_bboxes :: ndarray
  img_scores :: ndarray
  img_objectness :: "real list"

text \<open>
  Lines 154--161, the body of \<^verbatim>\<open>if num_classes == 0\<close>: the labels are the keys of this
  detection's score dictionary; the score matrix of the current image is reshaped to no
  row; the slice assignment \<^verbatim>\<open>dets_mat_list[0:img_idx] = [...]\<close> puts \<open>img_idx\<close> arrays
  with no row in the place of the first \<open>img_idx\<close> matrices.
\<close>

definition discover :: "nat \<Rightarrow> 'k score_dict \<Rightarrow> 'k locals \<Rightarrow> error + 'k locals" where
  "discover img_idx score_dict s =
     (let labels' = map fst score_dict;
          num_classes' = length labels'
      in case set_shape_0 (img_scores s) num_classes' of
           Inl e \<Rightarrow> Inl e
         | Inr sc \<Rightarrow>
             Inr (s\<lparr>labels := labels',
                    num_classes := num_classes',
                    img_scores := sc,
                    dets_mat_list :=
                      replicate img_idx (NDArray (4 + 1 + num_classes') [])
                      @ drop img_idx (dets_mat_list s)\<rparr>))"

text \<open>Lines 163--165: \<^verbatim>\<open>for label in labels: scores.append(score_dict[label])\<close>.\<close>

fun lookup_scores :: "'k list \<Rightarrow> 'k score_dict \<Rightarrow> error + real list" where
  "lookup_scores [] score_dict = Inr []"
| "lookup_scores (label # ls) score_dict =
     (case map_of score_dict label of
        None \<Rightarrow> Inl KeyError
      | Some v \<Rightarrow>
          (case lookup_scores ls score_dict of
             Inl e \<Rightarrow> Inl e
           | Inr vs \<Rightarrow> Inr (v # vs)))"

text \<open>
  Lines 167--171, the single-class normalization, as a transformer of the two local
  variables \<open>obj\<close> and \<open>scores\<close> it assigns.
\<close>

definition single_class :: "real \<Rightarrow> real list \<Rightarrow> error + (real \<times> real list)" where
  "single_class obj scores =
     (if length (filter (\<lambda>score. score > 0) scores) = 1 then
        (case py_max scores of
           Inl e \<Rightarrow> Inl e
         | Inr conf \<Rightarrow>
             (case py_index scores conf of
                Inl e \<Rightarrow> Inl e
              | Inr i \<Rightarrow> Inr (conf, scores[i := 1])))
      else Inr (obj, scores))"

text \<open>Lines 148--175: the body of the loop over the detections of one image.\<close>

definition det_step :: "nat \<Rightarrow> 'k detection \<Rightarrow> 'k locals \<Rightarrow> error + 'k locals" where
  "det_step img_idx det s =
     (let obj = 1;
          bbox = fst det;
          score_dict = snd det
      in case (if num_classes s = 0 then discover img_idx score_dict s else Inr s) of
           Inl e \<Rightarrow> Inl e
         | Inr s1 \<Rightarrow>
         (case lookup_scores (labels s1) score_dict of
            Inl e \<Rightarrow> Inl e
          | Inr scores \<Rightarrow>
          (case single_class obj scores of
             Inl e \<Rightarrow> Inl e
           | Inr (obj', scores') \<Rightarrow>
           (case vstack (img_bboxes s1) (atleast_2d (min_vertex bbox @ max_vertex bbox)) of
              Inl e \<Rightarrow> Inl e
            | Inr bb \<Rightarrow>
            (case vstack (img_scores s1) (atleast_2d scores') of
               Inl e \<Rightarrow> Inl e
             | Inr sc \<Rightarrow>
                 Inr (s1\<lparr>img_bboxes := bb,
                         img_scores := sc,
                         img_objectness := img_objectness s1 @ [obj']\<rparr>))))))"

fun dets_loop :: "nat \<Rightarrow> 'k detection list \<Rightarrow> 'k locals \<Rightarrow> error + 'k locals" where
  "dets_loop img_idx [] s = Inr s"
| "dets_loop img_idx (det # ds) s =
     (case det_step img_idx det s of
        Inl e \<Rightarrow> Inl e
      | Inr s' \<Rightarrow> dets_loop img_idx ds s')"

text \<open>Lines 138--177: the body of the loop over the images.\<close>

definition img_step :: "nat \<Rightarrow> 'k detection list \<Rightarrow> 'k locals \<Rightarrow> error + 'k locals" where
  "img_step img_idx img_dets s =
     (let s0 = s\<lparr>img_bboxes := NDArray 4 [],
                 img_scores := NDArray (num_classes s) [],
                 img_objectness := []\<rparr>
      in case dets_loop img_idx img_dets s0 of
           Inl e \<Rightarrow> Inl e
         | Inr s1 \<Rightarrow>
             (case format_detection (img_bboxes s1) (img_scores s1)
                     (Some (img_objectness s1)) of
                Inl e \<Rightarrow> Inl e
              | Inr m \<Rightarrow> Inr (s1\<lparr>dets_mat_list := dets_mat_list s1 @ [m]\<rparr>)))"

fun imgs_loop :: "nat \<Rightarrow> 'k detection list list \<Rightarrow> 'k locals \<Rightarrow> error + 'k locals" where
  "imgs_loop img_idx [] s = Inr s"
| "imgs_loop img_idx (img_dets # rest) s =
     (case img_step img_idx img_dets s of
        Inl e \<Rightarrow> Inl e
      | Inr s' \<Rightarrow> imgs_loop (Suc img_idx) rest s')"

definition init_locals :: "'k locals" where
  "init_locals =
     \<lparr>labels = [], num_classes = 0, dets_mat_list = [],
      img_bboxes = NDArray 0 [], img_scores = NDArray 0 [], img_objectness = []\<rparr>"

text \<open>
  Lines 179--187.  \<open>max_dets\<close> is the largest row count, so the subtraction never
  truncates.
\<close>

definition pad_row_of :: "nat \<Rightarrow> real list" where
  "pad_row_of n = (replicate (4 + 1 + n) 1)[4 := 0]"

fun pad_loop :: "nat \<Rightarrow> real list \<Rightarrow> ndarray list \<Rightarrow> error + ndarray list" where
  "pad_loop max_dets pad_row [] = Inr []"
| "pad_loop max_dets pad_row (dets_mat # rest) =
     (let size_diff = max_dets - nrows dets_mat
      in case vstack dets_mat (tile pad_row size_diff) of
           Inl e \<Rightarrow> Inl e
         | Inr m \<Rightarrow>
             (case pad_loop max_dets pad_row rest of
                Inl e \<Rightarrow> Inl e
              | Inr ms \<Rightarrow> Inr (m # ms)))"

definition pad_matrices :: "'k locals \<Rightarrow> error + ndarray list" where
  "pad_matrices s =
     (let num_dets = map nrows (dets_mat_list s)
      in case py_max num_dets of
           Inl e \<Rightarrow> Inl e
         | Inr max_dets \<Rightarrow>
             pad_loop max_dets (pad_row_of (num_classes s)) (dets_mat_list s))"

text \<open>
  \<^verbatim>\<open>_dets_to_formatted_mat\<close>.  The result of \<^verbatim>\<open>np.asarray\<close> on the padded matrices is
  the list of the slices of the three-dimensional tensor.
\<close>

definition dets_to_formatted_mat :: "'k detection list list \<Rightarrow> error + ndarray list" where
  "dets_to_formatted_mat dets =
     (case imgs_loop 0 dets init_locals of
        Inl e \<Rightarrow> Inl e
      | Inr s \<Rightarrow> pad_matrices s)"

text \<open>The label list the engine ends with (the local variable \<open>labels\<close>).\<close>

definition final_labels :: "'k detection list list \<Rightarrow> error + 'k list" where
  "final_labels dets =
     (case imgs_loop 0 dets init_locals of
        Inl e \<Rightarrow> Inl e
      | Inr s \<Rightarrow> Inr (labels s))"

text \<open>The shape of the tensor, for a list of slices of one common shape.\<close>

definition tensor_shape :: "ndarray list \<Rightarrow> nat \<times> nat \<times> nat" where
  "tensor_shape t =
     (length t,
      (case t of [] \<Rightarrow> 0 | m # _ \<Rightarrow> nrows m),
      (case t of [] \<Rightarrow> 0 | m # _ \<Rightarrow> ncols m))"

section \<open>The pipeline orchestrator\<close>

text \<open>
  \<^verbatim>\<open>PerturbationOcclusion._generate\<close> (lines 55--82).  The perturber, the saliency
  generator, the detector and \<^verbatim>\<open>occlude_image_batch\<close> are collaborators that are not
  part of the sources: they are parameters.  The statements run in the order of the
  code, so an exception of \<^verbatim>\<open>format_detection\<close> comes first.
\<close>

definition generate ::
  "('img \<Rightarrow> 'mask list) \<Rightarrow> (ndarray \<Rightarrow> ndarray list \<Rightarrow> 'mask list \<Rightarrow> 'sal) \<Rightarrow>
   ('img \<Rightarrow> 'mask list \<Rightarrow> 'fill \<Rightarrow> 'threads \<Rightarrow> 'img list) \<Rightarrow> 'fill \<Rightarrow> 'threads \<Rightarrow>
   'img \<Rightarrow> ndarray \<Rightarrow> ndarray \<Rightarrow> ('img list \<Rightarrow> 'k detection list list) \<Rightarrow>
   real list option \<Rightarrow> error + 'sal" where
  "generate perturber generator occlude_image_batch fill threads
            ref_image bboxes scores blackbox objectness =
     (case format_detection bboxes scores objectness of
        Inl e \<Rightarrow> Inl e
      | Inr ref_dets_mat \<Rightarrow>
          (let pert_masks = perturber ref_image;
               pert_dets = blackbox (occlude_image_batch ref_image pert_masks fill threads)
           in case dets_to_formatted_mat pert_dets of
                Inl e \<Rightarrow> Inl e
              | Inr pert_dets_mat \<Rightarrow>
                  Inr (generator ref_dets_mat pert_dets_mat pert_masks)))"

section \<open>Notions used to state the properties\<close>

text \<open>
  The keys of the first detection, in iteration order, whose score dictionary is not
  empty; the empty list when there is none.
\<close>

fun first_nonempty_keys :: "'k detection list \<Rightarrow> 'k list" where
  "first_nonempty_keys [] = []"
| "first_nonempty_keys (det # ds) =
     (if snd det = [] then first_nonempty_keys ds else map fst (snd det))"

text \<open>
  The label list as the specification words it: the score-map keys of the first image, in
  iteration order, that has a non-empty detection set (of its first detection); the empty
  list when no image has a detection.
\<close>

definition spec_label_list :: "'k detection list list \<Rightarrow> 'k list" where
  "spec_label_list dets =
     (case filter (\<lambda>img_dets. img_dets \<noteq> []) dets of
        [] \<Rightarrow> []
      | img_dets # _ \<Rightarrow> map fst (snd (hd img_dets)))"

text \<open>The label list that the remaining detections \<open>ds\<close> lead to, from the locals \<open>s\<close>.\<close>

definition labels_from :: "'k locals \<Rightarrow> 'k detection list \<Rightarrow> 'k list" where
  "labels_from s ds = (if num_classes s = 0 then first_nonempty_keys ds else labels s)"

text \<open>A detection whose score dictionary is cut down to the labels of \<open>L\<close>.\<close>

definition restrict_det :: "'k list \<Rightarrow> 'k detection \<Rightarrow> 'k detection" where
  "restrict_det L det = (fst det, filter (\<lambda>entry. fst entry \<in> set L) (snd det))"

text \<open>
  The row that the loop body and \<^verbatim>\<open>format_detection\<close> build for one detection under
  the label list \<open>L\<close>: the box, the objectness, the class scores.
\<close>

definition build_row :: "'k list \<Rightarrow> 'k detection \<Rightarrow> error + real list" where
  "build_row L det =
     (case lookup_scores L (snd det) of
        Inl e \<Rightarrow> Inl e
      | Inr scores \<Rightarrow>
          (case single_class 1 scores of
             Inl e \<Rightarrow> Inl e
           | Inr (obj, scores') \<Rightarrow>
               Inr (min_vertex (fst det) @ max_vertex (fst det) @ [obj] @ scores')))"

text \<open>
  The rows that \<^verbatim>\<open>format_detection\<close> makes of the three arrays of the current image, and
  the condition under which it accepts them.
\<close>

definition img_rows :: "'k locals \<Rightarrow> real list list" where
  "img_rows s =
     map (\<lambda>(b, ob, c). b @ [ob] @ c)
       (zip (rows (img_bboxes s)) (zip (img_objectness s) (rows (img_scores s))))"

definition balanced :: "'k locals \<Rightarrow> bool" where
  "balanced s =
     (nrows (img_bboxes s) = nrows (img_scores s) \<and>
      length (img_objectness s) = nrows (img_bboxes s))"

text \<open>A box used in the examples: corners (0, 0) and (2, 3).\<close>

definition example_box :: bbox where
  "example_box = \<lparr>min_vertex = [0, 0], max_vertex = [2, 3]\<rparr>"

section \<open>The normalization on a vector with one positive entry\<close>

lemma py_max_Max:
  assumes "xs \<noteq> []"
  shows "py_max xs = Inr (Max (set xs))"
proof (cases xs)
  case Nil
  with assms show ?thesis by simp
next
  case (Cons a list)
  then show ?thesis using Max.set_eq_fold [of a list] by simp
qed

lemma py_index_first: "v \<notin> set ys \<Longrightarrow> py_index (ys @ v # zs) v = Inr (length ys)"
  by (induction ys) auto

lemma filter_single_split:
  assumes "length (filter P xs) = 1"
  shows "\<exists>ys z zs. xs = ys @ z # zs \<and> P z \<and> (\<forall>y\<in>set ys. \<not> P y) \<and> (\<forall>y\<in>set zs. \<not> P y)"
proof -
  from assms obtain z where "filter P xs = [z]"
    by (cases "filter P xs") auto
  then obtain us vs where "xs = us @ z # vs" "\<forall>u\<in>set us. \<not> P u" "P z" "filter P vs = []"
    by (auto simp: filter_eq_Cons_iff)
  then show ?thesis
    by (auto simp: filter_empty_conv)
qed

lemma single_class_split:
  assumes "0 < z" "\<forall>y\<in>set ys. \<not> 0 < y" "\<forall>y\<in>set zs. \<not> 0 < y"
  shows "single_class obj (ys @ z # zs) = Inr (z, ys @ 1 # zs)"
proof -
  have cnt: "length (filter (\<lambda>score. 0 < score) (ys @ z # zs)) = 1"
    using assms by (simp add: filter_empty_conv)
  have "Max (set (ys @ z # zs)) = z"
    using assms by (intro Max_eqI) (auto simp: not_less intro: order_trans less_imp_le)
  then have mx: "py_max (ys @ z # zs) = Inr z"
    by (simp add: py_max_Max)
  have "z \<notin> set ys" using assms by auto
  then have ix: "py_index (ys @ z # zs) z = Inr (length ys)"
    by (rule py_index_first)
  show ?thesis
    unfolding single_class_def using cnt mx ix by simp
qed

lemma single_class_other:
  "length (filter (\<lambda>score. 0 < score) scores) \<noteq> 1 \<Longrightarrow> single_class obj scores = Inr (obj, scores)"
  by (simp add: single_class_def)

lemma single_class_total: "\<exists>r. single_class obj scores = Inr r"
proof (cases "length (filter (\<lambda>score. 0 < score) scores) = 1")
  case True
  then obtain ys z zs where s: "scores = ys @ z # zs" "0 < z"
     "\<forall>y\<in>set ys. \<not> 0 < y" "\<forall>y\<in>set zs. \<not> 0 < y"
    using filter_single_split [of "\<lambda>score. 0 < score" scores] by blast
  then show ?thesis by (simp add: single_class_split)
next
  case False
  then show ?thesis by (simp add: single_class_def)
qed

lemma single_class_unique:
  assumes "length (filter (\<lambda>score. 0 < score) scores) = 1" "k < length scores" "0 < scores ! k"
  shows "single_class obj scores = Inr (scores ! k, scores[k := 1])"
proof -
  from assms(1) obtain ys z zs where s: "scores = ys @ z # zs" "0 < z"
     "\<forall>y\<in>set ys. \<not> 0 < y" "\<forall>y\<in>set zs. \<not> 0 < y"
    using filter_single_split [of "\<lambda>score. 0 < score" scores] by blast
  have "k = length ys"
  proof (rule ccontr)
    assume "k \<noteq> length ys"
    then consider "k < length ys" | "length ys < k" by linarith
    then show False
    proof cases
      case 1
      then have "scores ! k \<in> set ys" using s(1) by (simp add: nth_append)
      with s(3) assms(3) show False by blast
    next
      case 2
      then obtain j where j: "k = length ys + Suc j" 
        by (metis less_iff_Suc_add add_Suc_right)
      with assms(2) s(1) have "j < length zs" by simp
      moreover from j s(1) have "scores ! k = zs ! j" by (simp add: nth_append)
      ultimately have "scores ! k \<in> set zs" by simp
      with s(4) assms(3) show False by blast
    qed
  qed
  with s show ?thesis
    by (simp add: single_class_split)
qed

section \<open>How the loop body changes the locals\<close>

lemma discover_Inr:
  assumes "discover i sd s = Inr s1"
  shows "labels s1 = map fst sd" and "num_classes s1 = length sd"
    and "img_bboxes s1 = img_bboxes s" and "img_objectness s1 = img_objectness s"
    and "img_scores s1 = NDArray (length sd) []"
    and "dets_mat_list s1 = replicate i (NDArray (4 + 1 + length sd) []) @ drop i (dets_mat_list s)"
  using assms by (auto simp: discover_def Let_def set_shape_0_def split: sum.splits if_splits)

lemma det_step_Inr:
  assumes "det_step i d s = Inr s'"
  obtains s1 scores obj' scores' bb sc where
    "(if num_classes s = 0 then discover i (snd d) s else Inr s) = Inr s1"
    "lookup_scores (labels s1) (snd d) = Inr scores"
    "single_class 1 scores = Inr (obj', scores')"
    "vstack (img_bboxes s1) (atleast_2d (min_vertex (fst d) @ max_vertex (fst d))) = Inr bb"
    "vstack (img_scores s1) (atleast_2d scores') = Inr sc"
    "s' = s1\<lparr>img_bboxes := bb, img_scores := sc, img_objectness := img_objectness s1 @ [obj']\<rparr>"
  using assms unfolding det_step_def Let_def
  by (auto split: sum.splits prod.splits)

lemma det_step_labels:
  assumes "det_step i d s = Inr s'"
  shows "labels s' = (if num_classes s = 0 then map fst (snd d) else labels s)"
    and "num_classes s' = (if num_classes s = 0 then length (snd d) else num_classes s)"
proof -
  from assms obtain s1 bb sc ob where
    s1: "(if num_classes s = 0 then discover i (snd d) s else Inr s) = Inr s1"
    and s': "s' = s1\<lparr>img_bboxes := bb, img_scores := sc, img_objectness := ob\<rparr>"
    by (rule det_step_Inr)
  show "labels s' = (if num_classes s = 0 then map fst (snd d) else labels s)"
    using s1 s' by (auto simp: discover_Inr split: if_splits)
  show "num_classes s' = (if num_classes s = 0 then length (snd d) else num_classes s)"
    using s1 s' by (auto simp: discover_Inr split: if_splits)
qed

lemma det_step_labels_from:
  assumes "det_step i d s = Inr s'"
  shows "labels_from s' rem = labels_from s (d # rem)"
  using det_step_labels [OF assms] by (auto simp: labels_from_def)

lemma dets_loop_labels_from:
  "dets_loop i ds s = Inr s' \<Longrightarrow> labels_from s' rem = labels_from s (ds @ rem)"
proof (induction ds arbitrary: s)
  case Nil
  then show ?case by simp
next
  case (Cons d ds)
  then obtain s1 where 1: "det_step i d s = Inr s1" and 2: "dets_loop i ds s1 = Inr s'"
    by (auto split: sum.splits)
  show ?case
    using Cons.IH [OF 2] det_step_labels_from [OF 1] by simp
qed

lemma img_step_Inr:
  assumes "img_step i ds s = Inr s'"
  obtains s1 m where
    "dets_loop i ds (s\<lparr>img_bboxes := NDArray 4 [], img_scores := NDArray (num_classes s) [],
        img_objectness := []\<rparr>) = Inr s1"
    "format_detection (img_bboxes s1) (img_scores s1) (Some (img_objectness s1)) = Inr m"
    "s' = s1\<lparr>dets_mat_list := dets_mat_list s1 @ [m]\<rparr>"
  using assms unfolding img_step_def Let_def by (auto split: sum.splits)

lemma labels_from_img_fields [simp]:
  "labels_from (s\<lparr>img_bboxes := a, img_scores := b, img_objectness := c\<rparr>) rem = labels_from s rem"
  "labels_from (s\<lparr>dets_mat_list := l\<rparr>) rem = labels_from s rem"
  by (simp_all add: labels_from_def)

lemma img_step_labels_from:
  assumes "img_step i ds s = Inr s'"
  shows "labels_from s' rem = labels_from s (ds @ rem)"
proof -
  from assms obtain s1 m where
    1: "dets_loop i ds (s\<lparr>img_bboxes := NDArray 4 [], img_scores := NDArray (num_classes s) [],
        img_objectness := []\<rparr>) = Inr s1"
    and 2: "s' = s1\<lparr>dets_mat_list := dets_mat_list s1 @ [m]\<rparr>"
    by (rule img_step_Inr)
  show ?thesis
    using dets_loop_labels_from [OF 1, of rem] 2 by simp
qed

lemma imgs_loop_labels_from:
  "imgs_loop i dets s = Inr s' \<Longrightarrow> labels_from s' rem = labels_from s (concat dets @ rem)"
proof (induction dets arbitrary: s i)
  case Nil
  then show ?case by simp
next
  case (Cons ds dets)
  then obtain s1 where 1: "img_step i ds s = Inr s1" and 2: "imgs_loop (Suc i) dets s1 = Inr s'"
    by (auto split: sum.splits)
  show ?case
    using Cons.IH [OF 2] img_step_labels_from [OF 1] by simp
qed

text \<open>\<open>num_classes\<close> is the length of \<open>labels\<close>, all along.\<close>

lemma det_step_num_classes:
  assumes "det_step i d s = Inr s'" "num_classes s = length (labels s)"
  shows "num_classes s' = length (labels s')"
  using det_step_labels [OF assms(1)] assms(2) by simp

lemma dets_loop_num_classes:
  "dets_loop i ds s = Inr s' \<Longrightarrow> num_classes s = length (labels s) \<Longrightarrow>
   num_classes s' = length (labels s')"
proof (induction ds arbitrary: s)
  case Nil
  then show ?case by simp
next
  case (Cons d ds)
  then obtain s1 where 1: "det_step i d s = Inr s1" and 2: "dets_loop i ds s1 = Inr s'"
    by (auto split: sum.splits)
  show ?case
    using Cons.IH [OF 2] det_step_num_classes [OF 1] Cons.prems(2) by simp
qed

lemma img_step_num_classes:
  assumes "img_step i ds s = Inr s'" "num_classes s = length (labels s)"
  shows "num_classes s' = length (labels s')"
proof -
  from assms(1) obtain s1 m where
    1: "dets_loop i ds (s\<lparr>img_bboxes := NDArray 4 [], img_scores := NDArray (num_classes s) [],
        img_objectness := []\<rparr>) = Inr s1"
    and 2: "s' = s1\<lparr>dets_mat_list := dets_mat_list s1 @ [m]\<rparr>"
    by (rule img_step_Inr)
  show ?thesis
    using dets_loop_num_classes [OF 1] 2 assms(2) by simp
qed

lemma imgs_loop_num_classes:
  "imgs_loop i dets s = Inr s' \<Longrightarrow> num_classes s = length (labels s) \<Longrightarrow>
   num_classes s' = length (labels s')"
proof (induction dets arbitrary: s i)
  case Nil
  then show ?case by simp
next
  case (Cons ds dets)
  then obtain s1 where 1: "img_step i ds s = Inr s1" and 2: "imgs_loop (Suc i) dets s1 = Inr s'"
    by (auto split: sum.splits)
  show ?case
    using Cons.IH [OF 2] img_step_num_classes [OF 1] Cons.prems(2) by simp
qed

lemma imgs_loop_init_labels:
  assumes "imgs_loop 0 dets init_locals = Inr s"
  shows "labels s = first_nonempty_keys (concat dets)"
    and "num_classes s = length (first_nonempty_keys (concat dets))"
proof -
  have n: "num_classes s = length (labels s)"
    using imgs_loop_num_classes [OF assms] by (simp add: init_locals_def)
  have "labels_from s [] = labels_from init_locals (concat dets @ [])"
    using assms by (rule imgs_loop_labels_from)
  then have "labels_from s [] = first_nonempty_keys (concat dets)"
    by (simp add: labels_from_def init_locals_def)
  with n show "labels s = first_nonempty_keys (concat dets)"
    by (auto simp: labels_from_def split: if_splits)
  with n show "num_classes s = length (first_nonempty_keys (concat dets))"
    by simp
qed

section \<open>The padding\<close>

lemma pad_loop_Inr:
  "pad_loop n r ms = Inr t \<Longrightarrow>
   length t = length ms \<and> (\<forall>m\<in>set t. ncols m = length r) \<and>
   (\<forall>i<length ms. rows (t ! i) = rows (ms ! i) @ replicate (n - nrows (ms ! i)) r)"
proof (induction ms arbitrary: t)
  case Nil
  then show ?case by simp
next
  case (Cons m ms)
  then obtain m' t' where
    1: "vstack m (tile r (n - nrows m)) = Inr m'" and 2: "pad_loop n r ms = Inr t'"
    and t: "t = m' # t'"
    by (auto simp: Let_def split: sum.splits)
  from 1 have m': "ncols m' = length r" "rows m' = rows m @ replicate (n - nrows m) r"
    by (auto simp: vstack_def tile_def split: if_splits)
  from Cons.IH [OF 2] have ih: "length t' = length ms" "\<forall>m\<in>set t'. ncols m = length r"
    "\<forall>i<length ms. rows (t' ! i) = rows (ms ! i) @ replicate (n - nrows (ms ! i)) r"
    by simp_all
  show ?case
    using t m' ih by (auto simp: nth_Cons split: nat.splits)
qed

lemma length_pad_row_of [simp]: "length (pad_row_of n) = 4 + 1 + n"
  by (simp add: pad_row_of_def)

lemma py_max_Inr:
  assumes "py_max xs = Inr n"
  shows "xs \<noteq> [] \<and> n = Max (set xs)"
proof (cases xs)
  case Nil
  with assms show ?thesis by simp
next
  case (Cons a list)
  with assms py_max_Max [of xs] show ?thesis by simp
qed

lemma pad_row_of_entries:
  "pad_row_of n ! 4 = 0" "j < 4 + 1 + n \<Longrightarrow> j \<noteq> 4 \<Longrightarrow> pad_row_of n ! j = 1"
  by (simp_all add: pad_row_of_def)

text \<open>
  The padding stage on its own: every padded matrix has as many rows as the largest of the
  per-image matrices, its own rows first and copies of the padding row after them; the
  padding row is 0 at index 4 and 1 elsewhere.
\<close>

lemma pad_matrices_rows:
  assumes "pad_matrices s = Inr t" "i < length (dets_mat_list s)"
  shows "length t = length (dets_mat_list s)"
    and "nrows (t ! i) = Max (set (map nrows (dets_mat_list s)))"
    and "rows (t ! i) = rows (dets_mat_list s ! i) @
           replicate (Max (set (map nrows (dets_mat_list s))) - nrows (dets_mat_list s ! i))
             (pad_row_of (num_classes s))"
proof -
  let ?n = "Max (set (map nrows (dets_mat_list s)))"
  from assms(1) obtain n where
    n: "py_max (map nrows (dets_mat_list s)) = Inr n"
    and p: "pad_loop n (pad_row_of (num_classes s)) (dets_mat_list s) = Inr t"
    by (auto simp: pad_matrices_def Let_def split: sum.splits)
  from py_max_Inr [OF n] have n': "n = ?n" by simp
  from pad_loop_Inr [OF p] assms(2) have
    l: "length t = length (dets_mat_list s)"
    and r: "rows (t ! i) = rows (dets_mat_list s ! i) @
           replicate (n - nrows (dets_mat_list s ! i)) (pad_row_of (num_classes s))"
    by simp_all
  have "nrows (dets_mat_list s ! i) \<in> set (map nrows (dets_mat_list s))"
    using assms(2) by simp
  then have "nrows (dets_mat_list s ! i) \<le> ?n"
    by (intro Max_ge) simp_all
  with r n' show "nrows (t ! i) = ?n"
    by (simp add: nrows_def)
  from l show "length t = length (dets_mat_list s)" .
  from r n' show "rows (t ! i) = rows (dets_mat_list s ! i) @
           replicate (?n - nrows (dets_mat_list s ! i)) (pad_row_of (num_classes s))"
    by simp
qed

section \<open>Score maps cut down to the label list\<close>

lemma map_of_filter_keys:
  "l \<in> set L \<Longrightarrow> map_of (filter (\<lambda>entry. fst entry \<in> set L) sd) l = map_of sd l"
  by (induction sd) auto

lemma lookup_scores_cong:
  "(\<And>l. l \<in> set L \<Longrightarrow> map_of sd' l = map_of sd l) \<Longrightarrow>
   lookup_scores L sd' = lookup_scores L sd"
  by (induction L) (auto split: option.splits sum.splits)

lemma lookup_scores_restrict:
  "set L \<subseteq> set M \<Longrightarrow>
   lookup_scores L (filter (\<lambda>entry. fst entry \<in> set M) sd) = lookup_scores L sd"
  by (rule lookup_scores_cong) (auto simp: map_of_filter_keys)

lemma filter_own_keys: "filter (\<lambda>entry. fst entry \<in> set (map fst sd)) sd = sd"
  by (induction sd) auto

lemma det_step_restrict:
  "det_step i (restrict_det (labels_from s (d # rem)) d) s = det_step i d s"
proof (cases "num_classes s = 0")
  case True
  then have "restrict_det (labels_from s (d # rem)) d = d"
    by (cases d) (simp add: restrict_det_def labels_from_def filter_own_keys)
  then show ?thesis by simp
next
  case False
  then have L: "labels_from s (d # rem) = labels s"
    by (simp add: labels_from_def)
  have "lookup_scores (labels s) (filter (\<lambda>entry. fst entry \<in> set (labels s)) (snd d))
     = lookup_scores (labels s) (snd d)"
    by (rule lookup_scores_restrict) simp
  with False L show ?thesis
    by (simp add: det_step_def restrict_det_def)
qed

lemma dets_loop_restrict:
  "dets_loop i (map (restrict_det (labels_from s (ds @ rem))) ds) s = dets_loop i ds s"
proof (induction ds arbitrary: s)
  case Nil
  then show ?case by simp
next
  case (Cons d ds)
  have 1: "det_step i (restrict_det (labels_from s (d # ds @ rem)) d) s = det_step i d s"
    by (rule det_step_restrict)
  show ?case
  proof (cases "det_step i d s")
    case (Inl e)
    with 1 show ?thesis by simp
  next
    case (Inr s1)
    then have "labels_from s1 (ds @ rem) = labels_from s (d # ds @ rem)"
      by (rule det_step_labels_from)
    with Cons.IH [of s1] 1 Inr show ?thesis by simp
  qed
qed

lemma img_step_restrict:
  "img_step i (map (restrict_det (labels_from s (ds @ rem))) ds) s = img_step i ds s"
proof -
  let ?s0 = "s\<lparr>img_bboxes := NDArray 4 [], img_scores := NDArray (num_classes s) [],
        img_objectness := []\<rparr>"
  have "dets_loop i (map (restrict_det (labels_from ?s0 (ds @ rem))) ds) ?s0 = dets_loop i ds ?s0"
    by (rule dets_loop_restrict)
  then show ?thesis
    by (simp add: img_step_def)
qed

lemma imgs_loop_restrict:
  "imgs_loop i (map (map (restrict_det (labels_from s (concat dets @ rem)))) dets) s
   = imgs_loop i dets s"
proof (induction dets arbitrary: s i)
  case Nil
  then show ?case by simp
next
  case (Cons ds dets)
  have 1: "img_step i (map (restrict_det (labels_from s (ds @ concat dets @ rem))) ds) s
      = img_step i ds s"
    by (rule img_step_restrict)
  show ?case
  proof (cases "img_step i ds s")
    case (Inl e)
    with 1 show ?thesis by simp
  next
    case (Inr s1)
    then have "labels_from s1 (concat dets @ rem) = labels_from s (ds @ concat dets @ rem)"
      by (rule img_step_labels_from)
    with Cons.IH [of "Suc i" s1] 1 Inr show ?thesis by simp
  qed
qed

section \<open>Lookups that succeed, lookups that fail\<close>

lemma lookup_scores_Inr_keys:
  "lookup_scores L sd = Inr vs \<Longrightarrow> l \<in> set L \<Longrightarrow> map_of sd l \<noteq> None"
  by (induction L arbitrary: vs) (auto split: option.splits sum.splits)

lemma map_of_own_keys: "sd \<noteq> [] \<Longrightarrow> l \<in> set (map fst sd) \<Longrightarrow> map_of sd l \<noteq> None"
  by (simp add: map_of_eq_None_iff)

lemma lookup_scores_missing:
  "l \<in> set L \<Longrightarrow> map_of sd l = None \<Longrightarrow> lookup_scores L sd = Inl KeyError"
proof (induction L)
  case Nil
  then show ?case by simp
next
  case (Cons a L)
  show ?case
  proof (cases "map_of sd a")
    case None
    then show ?thesis by simp
  next
    case (Some v)
    with Cons.prems have "l \<in> set L" by auto
    with Cons have "lookup_scores L sd = Inl KeyError" by simp
    with Some show ?thesis by simp
  qed
qed

lemma det_step_missing:
  assumes "num_classes s \<noteq> 0" "l \<in> set (labels s)" "map_of (snd det) l = None"
  shows "det_step i det s = Inl KeyError"
  using assms by (simp add: det_step_def lookup_scores_missing)

lemma det_step_has_labels:
  assumes "det_step i d s = Inr s'" "snd d \<noteq> []" "l \<in> set (labels_from s (d # rem))"
  shows "map_of (snd d) l \<noteq> None"
proof -
  from assms(1) obtain s1 scores where
    s1: "(if num_classes s = 0 then discover i (snd d) s else Inr s) = Inr s1"
    and sc: "lookup_scores (labels s1) (snd d) = Inr scores"
    by (rule det_step_Inr)
  from s1 assms(2) have "labels s1 = labels_from s (d # rem)"
    by (auto simp: labels_from_def discover_Inr split: if_splits)
  with sc assms(3) show ?thesis
    by (auto dest: lookup_scores_Inr_keys)
qed

lemma dets_loop_has_labels:
  "dets_loop i ds s = Inr s' \<Longrightarrow> d \<in> set ds \<Longrightarrow> snd d \<noteq> [] \<Longrightarrow>
   l \<in> set (labels_from s (ds @ rem)) \<Longrightarrow> map_of (snd d) l \<noteq> None"
proof (induction ds arbitrary: s)
  case Nil
  then show ?case by simp
next
  case (Cons d' ds)
  then obtain s1 where 1: "det_step i d' s = Inr s1" and 2: "dets_loop i ds s1 = Inr s'"
    by (auto split: sum.splits)
  have lf: "labels_from s1 (ds @ rem) = labels_from s (d' # ds @ rem)"
    using 1 by (rule det_step_labels_from)
  show ?case
  proof (cases "d = d'")
    case True
    with 1 Cons.prems show ?thesis
      using det_step_has_labels [of i d' s s1 l "ds @ rem"] by simp
  next
    case False
    with Cons.prems have "d \<in> set ds" by simp
    with Cons.IH [OF 2] Cons.prems lf show ?thesis by simp
  qed
qed

lemma imgs_loop_has_labels:
  "imgs_loop i dets s = Inr s' \<Longrightarrow> d \<in> set (concat dets) \<Longrightarrow> snd d \<noteq> [] \<Longrightarrow>
   l \<in> set (labels_from s (concat dets @ rem)) \<Longrightarrow> map_of (snd d) l \<noteq> None"
proof (induction dets arbitrary: s i)
  case Nil
  then show ?case by simp
next
  case (Cons ds dets)
  then obtain s1 where 1: "img_step i ds s = Inr s1" and 2: "imgs_loop (Suc i) dets s1 = Inr s'"
    by (auto split: sum.splits)
  have lf: "labels_from s1 (concat dets @ rem) = labels_from s (ds @ concat dets @ rem)"
    using 1 by (rule img_step_labels_from)
  show ?case
  proof (cases "d \<in> set ds")
    case True
    from 1 obtain s2 where
      3: "dets_loop i ds (s\<lparr>img_bboxes := NDArray 4 [], img_scores := NDArray (num_classes s) [],
        img_objectness := []\<rparr>) = Inr s2"
      by (rule img_step_Inr)
    show ?thesis
      using dets_loop_has_labels [OF 3 True Cons.prems(3), of l "concat dets @ rem"] Cons.prems(4)
      by simp
  next
    case False
    with Cons.prems have "d \<in> set (concat dets)" by simp
    with Cons.IH [OF 2] Cons.prems lf show ?thesis by simp
  qed
qed

section \<open>The loop over images without detections\<close>

lemma imgs_loop_no_detection:
  "num_classes s = 0 \<Longrightarrow>
   \<exists>s'. imgs_loop i (replicate n []) s = Inr s' \<and> num_classes s' = 0 \<and>
     labels s' = labels s \<and>
     dets_mat_list s' = dets_mat_list s @ replicate n (NDArray 5 [])"
proof (induction n arbitrary: s i)
  case 0
  then show ?case by simp
next
  case (Suc n)
  let ?s1 = "s\<lparr>img_bboxes := NDArray 4 [], img_scores := NDArray 0 [], img_objectness := [],
     dets_mat_list := dets_mat_list s @ [NDArray 5 []]\<rparr>"
  have 1: "img_step i [] s = Inr ?s1"
    using Suc.prems by (simp add: img_step_def format_detection_def nrows_def)
  have "num_classes ?s1 = 0" using Suc.prems by simp
  from Suc.IH [OF this, of "Suc i"] 1 show ?case
    by (auto simp: replicate_app_Cons_same)
qed

lemma pad_loop_empty: "pad_loop 0 (pad_row_of 0) (replicate n (NDArray 5 [])) = Inr (replicate n (NDArray 5 []))"
  by (induction n) (simp_all add: vstack_def tile_def nrows_def)

lemma py_max_replicate: "0 < n \<Longrightarrow> py_max (replicate n x) = Inr x"
proof -
  assume "0 < n"
  then have "replicate n x \<noteq> []" by simp
  then have "py_max (replicate n x) = Inr (Max (set (replicate n x)))"
    by (cases "replicate n x") (auto simp: Max.set_eq_fold [symmetric] simp del: set_replicate)
  with \<open>0 < n\<close> show ?thesis by simp
qed

section \<open>The columns of the tensor\<close>

lemma formatted_mat_ncols:
  assumes "dets_to_formatted_mat dets = Inr t" "m \<in> set t"
  shows "ncols m = 4 + 1 + length (first_nonempty_keys (concat dets))"
proof -
  from assms(1) obtain s n where
    s: "imgs_loop 0 dets init_locals = Inr s"
    and p: "pad_loop n (pad_row_of (num_classes s)) (dets_mat_list s) = Inr t"
    by (auto simp: dets_to_formatted_mat_def pad_matrices_def Let_def split: sum.splits)
  from pad_loop_Inr [OF p] assms(2) have "ncols m = 4 + 1 + num_classes s"
    by simp
  with imgs_loop_init_labels(2) [OF s] show ?thesis by simp
qed

section \<open>Rows of the detections processed once the labels are found\<close>

lemma det_step_stable:
  assumes "det_step i d s = Inr s'" "num_classes s \<noteq> 0"
  shows "dets_mat_list s' = dets_mat_list s" "labels s' = labels s"
    "num_classes s' = num_classes s"
proof -
  from assms(1) obtain s1 bb sc ob where
    s1: "(if num_classes s = 0 then discover i (snd d) s else Inr s) = Inr s1"
    and s': "s' = s1\<lparr>img_bboxes := bb, img_scores := sc, img_objectness := ob\<rparr>"
    by (rule det_step_Inr)
  from s1 assms(2) have "s1 = s" by simp
  with s' show "dets_mat_list s' = dets_mat_list s" "labels s' = labels s"
    "num_classes s' = num_classes s"
    by simp_all
qed

lemma dets_loop_stable:
  "dets_loop i ds s = Inr s' \<Longrightarrow> num_classes s \<noteq> 0 \<Longrightarrow>
   dets_mat_list s' = dets_mat_list s \<and> labels s' = labels s \<and> num_classes s' = num_classes s"
proof (induction ds arbitrary: s)
  case Nil
  then show ?case by simp
next
  case (Cons d ds)
  then obtain s1 where 1: "det_step i d s = Inr s1" and 2: "dets_loop i ds s1 = Inr s'"
    by (auto split: sum.splits)
  from det_step_stable [OF 1 Cons.prems(2)] Cons.IH [OF 2] Cons.prems(2)
  show ?case by simp
qed

lemma img_step_stable:
  assumes "img_step i ds s = Inr s'" "num_classes s \<noteq> 0"
  shows "\<exists>m. dets_mat_list s' = dets_mat_list s @ [m]" "labels s' = labels s"
    "num_classes s' = num_classes s"
proof -
  let ?s0 = "s\<lparr>img_bboxes := NDArray 4 [], img_scores := NDArray (num_classes s) [],
        img_objectness := []\<rparr>"
  from assms(1) obtain s1 m where
    1: "dets_loop i ds ?s0 = Inr s1"
    and 2: "s' = s1\<lparr>dets_mat_list := dets_mat_list s1 @ [m]\<rparr>"
    by (rule img_step_Inr)
  from dets_loop_stable [OF 1] assms(2) have
    "dets_mat_list s1 = dets_mat_list s" "labels s1 = labels s" "num_classes s1 = num_classes s"
    by simp_all
  with 2 show "\<exists>m. dets_mat_list s' = dets_mat_list s @ [m]" "labels s' = labels s"
    "num_classes s' = num_classes s"
    by simp_all
qed

lemma imgs_loop_stable:
  "imgs_loop i dets s = Inr s' \<Longrightarrow> num_classes s \<noteq> 0 \<Longrightarrow>
   (\<exists>ms. dets_mat_list s' = dets_mat_list s @ ms) \<and> labels s' = labels s \<and>
   num_classes s' = num_classes s"
proof (induction dets arbitrary: s i)
  case Nil
  then show ?case by simp
next
  case (Cons ds dets)
  then obtain s1 where 1: "img_step i ds s = Inr s1" and 2: "imgs_loop (Suc i) dets s1 = Inr s'"
    by (auto split: sum.splits)
  from img_step_stable [OF 1 Cons.prems(2)] obtain m where
    m: "dets_mat_list s1 = dets_mat_list s @ [m]" "labels s1 = labels s"
    "num_classes s1 = num_classes s"
    by auto
  with Cons.IH [OF 2] Cons.prems(2) show ?case by auto
qed

text \<open>The slice assignment keeps the length of the list of matrices.\<close>

lemma det_step_length:
  assumes "det_step i d s = Inr s'" "length (dets_mat_list s) = i"
  shows "length (dets_mat_list s') = i"
proof -
  from assms(1) obtain s1 bb sc ob where
    s1: "(if num_classes s = 0 then discover i (snd d) s else Inr s) = Inr s1"
    and s': "s' = s1\<lparr>img_bboxes := bb, img_scores := sc, img_objectness := ob\<rparr>"
    by (rule det_step_Inr)
  from s1 assms(2) have "length (dets_mat_list s1) = i"
    by (auto simp: discover_Inr split: if_splits)
  with s' show ?thesis by simp
qed

lemma dets_loop_length:
  "dets_loop i ds s = Inr s' \<Longrightarrow> length (dets_mat_list s) = i \<Longrightarrow>
   length (dets_mat_list s') = i"
proof (induction ds arbitrary: s)
  case Nil
  then show ?case by simp
next
  case (Cons d ds)
  then obtain s1 where 1: "det_step i d s = Inr s1" and 2: "dets_loop i ds s1 = Inr s'"
    by (auto split: sum.splits)
  from Cons.IH [OF 2] det_step_length [OF 1 Cons.prems(2)] show ?case by simp
qed

text \<open>The three arrays of the current image, one detection further.\<close>

lemma img_rows_append:
  assumes "balanced s"
    and "rows (img_bboxes s') = rows (img_bboxes s) @ [b]"
    and "rows (img_scores s') = rows (img_scores s) @ [c]"
    and "img_objectness s' = img_objectness s @ [ob]"
  shows "balanced s'" "img_rows s' = img_rows s @ [b @ [ob] @ c]"
  using assms by (simp_all add: balanced_def img_rows_def nrows_def)

lemma det_step_row:
  assumes "det_step i d s = Inr s'" "balanced s"
    and "num_classes s = 0 \<longrightarrow> snd d \<noteq> [] \<and> img_rows s = [] \<and> nrows (img_bboxes s) = 0"
  shows "num_classes s' \<noteq> 0" "balanced s'"
    "\<exists>r. build_row (labels s') d = Inr r \<and> img_rows s' = img_rows s @ [r]"
proof -
  from assms(1) obtain s1 scores obj' scores' bb sc where
    s1: "(if num_classes s = 0 then discover i (snd d) s else Inr s) = Inr s1"
    and lk: "lookup_scores (labels s1) (snd d) = Inr scores"
    and n: "single_class 1 scores = Inr (obj', scores')"
    and vb: "vstack (img_bboxes s1) (atleast_2d (min_vertex (fst d) @ max_vertex (fst d))) = Inr bb"
    and vs: "vstack (img_scores s1) (atleast_2d scores') = Inr sc"
    and s': "s' = s1\<lparr>img_bboxes := bb, img_scores := sc,
               img_objectness := img_objectness s1 @ [obj']\<rparr>"
    by (rule det_step_Inr)
  let ?r = "min_vertex (fst d) @ max_vertex (fst d) @ [obj'] @ scores'"
  have br: "build_row (labels s') d = Inr ?r"
    using lk n s' by (simp add: build_row_def)
  from vb have rb: "rows bb = rows (img_bboxes s1) @ [min_vertex (fst d) @ max_vertex (fst d)]"
    by (auto simp: vstack_def atleast_2d_def split: if_splits)
  from vs have rs: "rows sc = rows (img_scores s1) @ [scores']"
    by (auto simp: vstack_def atleast_2d_def split: if_splits)
  have s1_facts: "balanced s1 \<and> img_rows s1 = img_rows s \<and> num_classes s1 \<noteq> 0"
  proof (cases "num_classes s = 0")
    case True
    with s1 have d: "discover i (snd d) s = Inr s1" by simp
    from True assms(3) have "nrows (img_bboxes s) = 0" by simp
    then have e1: "rows (img_bboxes s) = []" by (simp add: nrows_def)
    with assms(2) have "length (img_objectness s) = 0" by (simp add: balanced_def nrows_def)
    then have e2: "img_objectness s = []" by simp
    note e = e1 e2
    from True assms(3) have "snd d \<noteq> []" by simp
    with discover_Inr [OF d] e assms(3) True show ?thesis
      by (simp add: balanced_def img_rows_def nrows_def)
  next
    case False
    with s1 assms(2) show ?thesis by simp
  qed
  from s1_facts s' show "num_classes s' \<noteq> 0" by simp
  have a: "rows (img_bboxes s') = rows (img_bboxes s1) @ [min_vertex (fst d) @ max_vertex (fst d)]"
    "rows (img_scores s') = rows (img_scores s1) @ [scores']"
    "img_objectness s' = img_objectness s1 @ [obj']"
    using s' rb rs by simp_all
  from s1_facts have b1: "balanced s1" by simp
  from img_rows_append [OF b1 a] show "balanced s'" by simp
  from img_rows_append [OF b1 a] s1_facts br
  show "\<exists>r. build_row (labels s') d = Inr r \<and> img_rows s' = img_rows s @ [r]"
    by simp
qed

lemma dets_loop_rows:
  "dets_loop i ds s = Inr s' \<Longrightarrow> balanced s \<Longrightarrow> num_classes s \<noteq> 0 \<Longrightarrow>
   balanced s' \<and>
   (\<exists>rs. map (build_row (labels s)) ds = map Inr rs \<and> img_rows s' = img_rows s @ rs)"
proof (induction ds arbitrary: s)
  case Nil
  then show ?case by simp
next
  case (Cons d ds)
  then obtain s1 where 1: "det_step i d s = Inr s1" and 2: "dets_loop i ds s1 = Inr s'"
    by (auto split: sum.splits)
  have c: "num_classes s = 0 \<longrightarrow> snd d \<noteq> [] \<and> img_rows s = [] \<and> nrows (img_bboxes s) = 0"
    using Cons.prems(3) by simp
  from det_step_row [OF 1 Cons.prems(2) c] obtain r where
    r: "num_classes s1 \<noteq> 0" "balanced s1" "build_row (labels s1) d = Inr r"
    "img_rows s1 = img_rows s @ [r]"
    by auto
  from det_step_stable [OF 1 Cons.prems(3)] have l: "labels s1 = labels s" by simp
  from Cons.IH [OF 2 r(2) r(1)] obtain rs where
    rs: "balanced s'" "map (build_row (labels s1)) ds = map Inr rs"
    "img_rows s' = img_rows s1 @ rs"
    by auto
  from r rs l have "map (build_row (labels s)) (d # ds) = map Inr (r # rs)"
    "img_rows s' = img_rows s @ (r # rs)"
    by simp_all
  with rs(1) show ?case by blast
qed

text \<open>
  An image in which a detection with an empty score map comes before the detection that
  gives the labels is refused by \<^verbatim>\<open>format_detection\<close>: the reshape of line 157 has left
  the score matrix with fewer rows than the box matrix.
\<close>

lemma det_step_nrows:
  assumes "det_step i d s = Inr s'"
  shows "nrows (img_bboxes s') = nrows (img_bboxes s) + 1"
    and "nrows (img_scores s') = (if num_classes s = 0 then 1 else nrows (img_scores s) + 1)"
proof -
  from assms(1) obtain s1 scores' bb sc ob where
    s1: "(if num_classes s = 0 then discover i (snd d) s else Inr s) = Inr s1"
    and vb: "vstack (img_bboxes s1) (atleast_2d (min_vertex (fst d) @ max_vertex (fst d))) = Inr bb"
    and vs: "vstack (img_scores s1) (atleast_2d scores') = Inr sc"
    and s': "s' = s1\<lparr>img_bboxes := bb, img_scores := sc, img_objectness := ob\<rparr>"
    by (rule det_step_Inr)
  from vb have rb: "nrows bb = nrows (img_bboxes s1) + 1"
    by (auto simp: vstack_def atleast_2d_def nrows_def split: if_splits)
  from vs have rs: "nrows sc = nrows (img_scores s1) + 1"
    by (auto simp: vstack_def atleast_2d_def nrows_def split: if_splits)
  from s1 have "img_bboxes s1 = img_bboxes s"
    by (auto simp: discover_Inr split: if_splits)
  with rb s' show "nrows (img_bboxes s') = nrows (img_bboxes s) + 1" by simp
  from s1 have "nrows (img_scores s1) = (if num_classes s = 0 then 0 else nrows (img_scores s))"
    by (auto simp: discover_Inr nrows_def split: if_splits)
  with rs s' show "nrows (img_scores s') = (if num_classes s = 0 then 1 else nrows (img_scores s) + 1)"
    by simp
qed

lemma dets_loop_fewer_scores:
  "dets_loop i ds s = Inr s' \<Longrightarrow> nrows (img_scores s) < nrows (img_bboxes s) \<Longrightarrow>
   nrows (img_scores s') < nrows (img_bboxes s')"
proof (induction ds arbitrary: s)
  case Nil
  then show ?case by simp
next
  case (Cons d ds)
  then obtain s1 where 1: "det_step i d s = Inr s1" and 2: "dets_loop i ds s1 = Inr s'"
    by (auto split: sum.splits)
  from det_step_nrows [OF 1] Cons.prems(2) have "nrows (img_scores s1) < nrows (img_bboxes s1)"
    by (simp split: if_splits)
  with Cons.IH [OF 2] show ?case by simp
qed

lemma dets_loop_late_labels:
  assumes "dets_loop i (d # d' # ds) s = Inr s'" "num_classes s = 0" "snd d = []"
  shows "nrows (img_scores s') < nrows (img_bboxes s')"
proof -
  from assms(1) obtain s1 s2 where 1: "det_step i d s = Inr s1"
    and 2: "det_step i d' s1 = Inr s2" and 3: "dets_loop i ds s2 = Inr s'"
    by (auto split: sum.splits)
  from det_step_labels(2) [OF 1] assms(2,3) have n1: "num_classes s1 = 0" by simp
  from det_step_nrows [OF 1] have "1 \<le> nrows (img_bboxes s1)" by simp
  with det_step_nrows [OF 2] n1 have "nrows (img_scores s2) < nrows (img_bboxes s2)" by simp
  with 3 show ?thesis by (rule dets_loop_fewer_scores)
qed

lemma format_detection_Inr:
  assumes "format_detection bb sc (Some ob) = Inr m"
  shows "nrows bb = nrows sc" "length ob = nrows bb"
    "rows m = map (\<lambda>(b, ob, c). b @ [ob] @ c) (zip (rows bb) (zip ob (rows sc)))"
  using assms by (auto simp: format_detection_def Let_def split: if_splits)

lemma first_nonempty_keys_append:
  "first_nonempty_keys (xs @ ys) =
     (if first_nonempty_keys xs = [] then first_nonempty_keys ys else first_nonempty_keys xs)"
  by (induction xs) auto

lemma img_step_rows:
  assumes "img_step i ds s = Inr s'" "length (dets_mat_list s) = i"
    and "num_classes s \<noteq> 0 \<or> first_nonempty_keys ds \<noteq> []"
  shows "num_classes s' \<noteq> 0" "length (dets_mat_list s') = Suc i"
    "map (build_row (labels s')) ds = map Inr (rows (dets_mat_list s' ! i))"
proof -
  let ?s0 = "s\<lparr>img_bboxes := NDArray 4 [], img_scores := NDArray (num_classes s) [],
        img_objectness := []\<rparr>"
  from assms(1) obtain s1 m where
    1: "dets_loop i ds ?s0 = Inr s1"
    and f: "format_detection (img_bboxes s1) (img_scores s1) (Some (img_objectness s1)) = Inr m"
    and s': "s' = s1\<lparr>dets_mat_list := dets_mat_list s1 @ [m]\<rparr>"
    by (rule img_step_Inr)
  from format_detection_Inr [OF f] have eq: "nrows (img_bboxes s1) = nrows (img_scores s1)"
    and m: "rows m = img_rows s1"
    by (simp_all add: img_rows_def)
  have len: "length (dets_mat_list s1) = i"
    using dets_loop_length [OF 1] assms(2) by simp
  have b0: "balanced ?s0" "img_rows ?s0 = []" "nrows (img_bboxes ?s0) = 0"
    by (simp_all add: balanced_def img_rows_def nrows_def)
  have main: "num_classes s1 \<noteq> 0 \<and> map (build_row (labels s1)) ds = map Inr (img_rows s1)"
  proof (cases "num_classes s = 0")
    case False
    then have n0: "num_classes ?s0 \<noteq> 0" by simp
    from dets_loop_rows [OF 1 b0(1) n0] b0(2) dets_loop_stable [OF 1 n0] n0
    show ?thesis by auto
  next
    case True
    with assms(3) obtain d ds' where ds: "ds = d # ds'"
      by (cases ds) auto
    from 1 ds obtain s2 where 2: "det_step i d ?s0 = Inr s2" and 3: "dets_loop i ds' s2 = Inr s1"
      by (auto split: sum.splits)
    have nonempty: "snd d \<noteq> []"
    proof
      assume e: "snd d = []"
      with assms(3) True ds obtain d' ds'' where "ds' = d' # ds''"
        by (cases ds') auto
      with 1 ds have "dets_loop i (d # d' # ds'') ?s0 = Inr s1" by simp
      from dets_loop_late_labels [OF this _ e] True
      have "nrows (img_scores s1) < nrows (img_bboxes s1)" by simp
      with eq show False by simp
    qed
    have c: "num_classes ?s0 = 0 \<longrightarrow>
        snd d \<noteq> [] \<and> img_rows ?s0 = [] \<and> nrows (img_bboxes ?s0) = 0"
      by (intro impI conjI nonempty b0(2) b0(3))
    from det_step_row [OF 2 b0(1) c] obtain r where
      r: "num_classes s2 \<noteq> 0" "balanced s2" "build_row (labels s2) d = Inr r"
      "img_rows s2 = img_rows ?s0 @ [r]"
      by auto
    from dets_loop_rows [OF 3 r(2) r(1)] obtain rs where
      rs: "map (build_row (labels s2)) ds' = map Inr rs" "img_rows s1 = img_rows s2 @ rs"
      by auto
    from dets_loop_stable [OF 3 r(1)] have l: "labels s1 = labels s2" "num_classes s1 = num_classes s2"
      by simp_all
    from r rs l ds b0(2) show ?thesis by simp
  qed
  from main s' show "num_classes s' \<noteq> 0" by simp
  from len s' show "length (dets_mat_list s') = Suc i" by simp
  from main m len s' show "map (build_row (labels s')) ds = map Inr (rows (dets_mat_list s' ! i))"
    by (simp add: nth_append)
qed

lemma img_step_length:
  assumes "img_step i ds s = Inr s'" "length (dets_mat_list s) = i"
  shows "length (dets_mat_list s') = Suc i"
proof -
  let ?s0 = "s\<lparr>img_bboxes := NDArray 4 [], img_scores := NDArray (num_classes s) [],
        img_objectness := []\<rparr>"
  from assms(1) obtain s1 m where
    1: "dets_loop i ds ?s0 = Inr s1"
    and s': "s' = s1\<lparr>dets_mat_list := dets_mat_list s1 @ [m]\<rparr>"
    by (rule img_step_Inr)
  from dets_loop_length [OF 1] assms(2) s' show ?thesis by simp
qed

lemma imgs_loop_rows:
  "imgs_loop i dets s = Inr s' \<Longrightarrow> length (dets_mat_list s) = i \<Longrightarrow>
   length (dets_mat_list s') = i + length dets \<and>
   (\<forall>k<length dets.
      num_classes s \<noteq> 0 \<or> first_nonempty_keys (concat (take (Suc k) dets)) \<noteq> [] \<longrightarrow>
      map (build_row (labels s')) (dets ! k) = map Inr (rows (dets_mat_list s' ! (i + k))))"
proof (induction dets arbitrary: s i)
  case Nil
  then show ?case by simp
next
  case (Cons ds dets)
  then obtain s1 where 1: "img_step i ds s = Inr s1" and 2: "imgs_loop (Suc i) dets s1 = Inr s'"
    by (auto split: sum.splits)
  have len1: "length (dets_mat_list s1) = Suc i"
    using img_step_length [OF 1 Cons.prems(2)] .
  note IH = Cons.IH [OF 2 len1]
  from IH have len: "length (dets_mat_list s') = Suc i + length dets" ..
  from IH have ih: "\<forall>k<length dets.
      num_classes s1 \<noteq> 0 \<or> first_nonempty_keys (concat (take (Suc k) dets)) \<noteq> [] \<longrightarrow>
      map (build_row (labels s')) (dets ! k) = map Inr (rows (dets_mat_list s' ! (Suc i + k)))" ..
  have rows: "map (build_row (labels s')) ((ds # dets) ! k)
      = map Inr (rows (dets_mat_list s' ! (i + k)))"
    if k: "k < length (ds # dets)"
      and c: "num_classes s \<noteq> 0 \<or> first_nonempty_keys (concat (take (Suc k) (ds # dets))) \<noteq> []"
    for k
  proof (cases k)
    case 0
    with c have c0: "num_classes s \<noteq> 0 \<or> first_nonempty_keys ds \<noteq> []" by simp
    from img_step_rows [OF 1 Cons.prems(2) c0] have
      n1: "num_classes s1 \<noteq> 0"
      and r1: "map (build_row (labels s1)) ds = map Inr (rows (dets_mat_list s1 ! i))"
      by simp_all
    from imgs_loop_stable [OF 2 n1] obtain ms where
      "dets_mat_list s' = dets_mat_list s1 @ ms" "labels s' = labels s1"
      by auto
    with r1 len1 0 show ?thesis by (simp add: nth_append)
  next
    case (Suc k')
    with k have k': "k' < length dets" by simp
    have "num_classes s1 \<noteq> 0 \<or> first_nonempty_keys (concat (take (Suc k') dets)) \<noteq> []"
    proof (cases "num_classes s \<noteq> 0 \<or> first_nonempty_keys ds \<noteq> []")
      case True
      from img_step_rows(1) [OF 1 Cons.prems(2) True] show ?thesis by simp
    next
      case False
      with c Suc show ?thesis
        by (simp add: first_nonempty_keys_append)
    qed
    with ih k' have "map (build_row (labels s')) (dets ! k')
        = map Inr (rows (dets_mat_list s' ! (Suc i + k')))"
      by blast
    with Suc show ?thesis by simp
  qed
  from len rows show ?case by simp
qed

lemma lookup_scores_map_of:
  "lookup_scores L sd = Inr scores \<Longrightarrow> map (map_of sd) L = map Some scores"
  by (induction L arbitrary: scores) (auto split: option.splits sum.splits)

lemma single_index:
  assumes "xs = ys @ z # zs" "\<forall>y\<in>set ys. \<not> P y" "\<forall>y\<in>set zs. \<not> P y"
    and "k < length xs" "P (xs ! k)"
  shows "k = length ys"
proof (rule ccontr)
  assume "k \<noteq> length ys"
  then consider "k < length ys" | "length ys < k" by linarith
  then show False
  proof cases
    case 1
    then have "xs ! k \<in> set ys" using assms(1) by (simp add: nth_append)
    with assms(2,5) show False by blast
  next
    case 2
    then obtain j where j: "k = length ys + Suc j"
      by (metis less_iff_Suc_add add_Suc_right)
    with assms(1,4) have "j < length zs" by simp
    moreover from j assms(1) have "xs ! k = zs ! j" by (simp add: nth_append)
    ultimately have "xs ! k \<in> set zs" by simp
    with assms(3,5) show False by blast
  qed
qed

lemma single_class_columns:
  assumes "single_class 1 scores = Inr (obj, cls)"
  shows "length cls = length scores"
    and "c < length scores \<Longrightarrow>
      cls ! c = (if length (filter (\<lambda>score. 0 < score) scores) = 1 \<and> 0 < scores ! c
                 then 1 else scores ! c)"
proof -
  have "length cls = length scores \<and> (c < length scores \<longrightarrow>
      cls ! c = (if length (filter (\<lambda>score. 0 < score) scores) = 1 \<and> 0 < scores ! c
                 then 1 else scores ! c))"
  proof (cases "length (filter (\<lambda>score. 0 < score) scores) = 1")
    case True
    then obtain ys z zs where s: "scores = ys @ z # zs" "0 < z"
       "\<forall>y\<in>set ys. \<not> 0 < y" "\<forall>y\<in>set zs. \<not> 0 < y"
      using filter_single_split [of "\<lambda>score. 0 < score" scores] by blast
    with assms have cls: "cls = ys @ 1 # zs"
      by (simp add: single_class_split)
    have "cls ! c = (if 0 < scores ! c then 1 else scores ! c)" if c: "c < length scores"
    proof (cases "0 < scores ! c")
      case True
      with s c have "c = length ys"
        by (intro single_index [of scores ys z zs "\<lambda>score. 0 < score"]) auto
      with cls True show ?thesis by simp
    next
      case False
      with s(1,2) have "c \<noteq> length ys" by auto
      with cls s(1) False show ?thesis
        by (auto simp: nth_append nth_Cons split: nat.splits)
    qed
    with True cls s(1) show ?thesis by simp
  next
    case False
    with assms show ?thesis by (simp add: single_class_def)
  qed
  then show "length cls = length scores"
    and "c < length scores \<Longrightarrow>
      cls ! c = (if length (filter (\<lambda>score. 0 < score) scores) = 1 \<and> 0 < scores ! c
                 then 1 else scores ! c)"
    by simp_all
qed

lemma build_row_Inr:
  assumes "build_row L d = Inr r"
  obtains scores obj cls where
    "map (map_of (snd d)) L = map Some scores"
    "single_class 1 scores = Inr (obj, cls)"
    "r = min_vertex (fst d) @ max_vertex (fst d) @ [obj] @ cls"
  using assms unfolding build_row_def
  by (auto split: sum.splits prod.splits dest: lookup_scores_map_of)

text \<open>
  The rows of the tensor for the detections of an image by whose end the labels are found.
\<close>

lemma engine_row:
  assumes "dets_to_formatted_mat dets = Inr t" "i < length dets" "j < length (dets ! i)"
    and "first_nonempty_keys (concat (take (Suc i) dets)) \<noteq> []"
  shows "build_row (first_nonempty_keys (concat dets)) (dets ! i ! j) = Inr (rows (t ! i) ! j)"
proof -
  from assms(1) obtain s where
    s: "imgs_loop 0 dets init_locals = Inr s" and p: "pad_matrices s = Inr t"
    by (auto simp: dets_to_formatted_mat_def split: sum.splits)
  have l0: "length (dets_mat_list (init_locals :: 'a locals)) = 0"
    by (simp add: init_locals_def)
  from imgs_loop_rows [OF s l0] assms(2,4) have
    len: "length (dets_mat_list s) = length dets"
    and m: "map (build_row (labels s)) (dets ! i) = map Inr (rows (dets_mat_list s ! i))"
    by simp_all
  from m have "length (dets ! i) = length (rows (dets_mat_list s ! i))"
    by (rule map_eq_imp_length_eq)
  with assms(3) have j: "j < length (rows (dets_mat_list s ! i))" by simp
  from m have "map (build_row (labels s)) (dets ! i) ! j = map Inr (rows (dets_mat_list s ! i)) ! j"
    by simp
  with j assms(3) have b: "build_row (labels s) (dets ! i ! j) = Inr (rows (dets_mat_list s ! i) ! j)"
    by simp
  from len assms(2) have "i < length (dets_mat_list s)" by simp
  from pad_matrices_rows(3) [OF p this] j have "rows (t ! i) ! j = rows (dets_mat_list s ! i) ! j"
    by (simp add: nth_append)
  with b imgs_loop_init_labels(1) [OF s] show ?thesis by simp
qed

text \<open>
  The normalization as the tensor shows it, for such a detection: with \<open>scores\<close> its
  class scores in the order of the label list, its row is the box, the objectness and the
  class scores, where one strictly positive score, at index \<open>k\<close>, makes the objectness
  that score and the class score 1, and no or several strictly positive scores leave the
  objectness 1.0 and the scores as they are.
\<close>

lemma engine_row_normalized:
  assumes "dets_to_formatted_mat dets = Inr t" "i < length dets" "j < length (dets ! i)"
    and "first_nonempty_keys (concat (take (Suc i) dets)) \<noteq> []"
  shows "\<exists>scores obj cls.
     map (map_of (snd (dets ! i ! j))) (first_nonempty_keys (concat dets)) = map Some scores \<and>
     rows (t ! i) ! j
       = min_vertex (fst (dets ! i ! j)) @ max_vertex (fst (dets ! i ! j)) @ [obj] @ cls \<and>
     (\<forall>k. length (filter (\<lambda>score. 0 < score) scores) = 1 \<and> k < length scores \<and> 0 < scores ! k
        \<longrightarrow> obj = scores ! k \<and> cls = scores[k := 1]) \<and>
     (length (filter (\<lambda>score. 0 < score) scores) \<noteq> 1 \<longrightarrow> obj = 1 \<and> cls = scores)"
proof -
  from engine_row [OF assms] obtain scores obj cls where
    1: "map (map_of (snd (dets ! i ! j))) (first_nonempty_keys (concat dets)) = map Some scores"
    and 2: "single_class 1 scores = Inr (obj, cls)"
    and 3: "rows (t ! i) ! j
       = min_vertex (fst (dets ! i ! j)) @ max_vertex (fst (dets ! i ! j)) @ [obj] @ cls"
    by (rule build_row_Inr)
  have "\<forall>k. length (filter (\<lambda>score. 0 < score) scores) = 1 \<and> k < length scores \<and> 0 < scores ! k
        \<longrightarrow> obj = scores ! k \<and> cls = scores[k := 1]"
    using 2 by (auto simp: single_class_unique)
  moreover have "length (filter (\<lambda>score. 0 < score) scores) \<noteq> 1 \<longrightarrow> obj = 1 \<and> cls = scores"
    using 2 by (auto simp: single_class_def)
  ultimately show ?thesis using 1 3 by blast
qed

section \<open>Evaluation of the engine on concrete batches\<close>

lemma pad_row_of_eq: "pad_row_of n = [1, 1, 1, 1, 0] @ replicate n 1"
proof -
  have "replicate (4 + 1 + n) (1 :: real) = [1, 1, 1, 1, 1] @ replicate n 1"
    by (simp add: replicate_add numeral_eq_Suc)
  then show ?thesis
    by (simp add: pad_row_of_def)
qed

lemmas engine_defs =
  dets_to_formatted_mat_def final_labels_def pad_matrices_def init_locals_def img_step_def
  det_step_def discover_def set_shape_0_def nrows_def single_class_def vstack_def
  atleast_2d_def format_detection_def pad_row_of_eq tile_def example_box_def

section \<open>Missing labels\<close>

text \<open>
  Claim C1, as amended.  The engine has no leniency for a missing label.  For every batch
  in which some detection with a non-empty score map lacks a label of the canonical label
  list, the engine fails: it returns an error and no tensor, and no score 0 is
  substituted.  The error arises in the loop body: once the labels are discovered, a
  detection whose score map lacks one of them makes the lookup \<^verbatim>\<open>score_dict[label]\<close>
  raise \<open>KeyError\<close>.
\<close>

theorem missing_label_fails:
  "(d \<in> set (concat dets) \<and> snd d \<noteq> [] \<and> l \<in> set (first_nonempty_keys (concat dets)) \<and>
    map_of (snd d) l = None \<longrightarrow> (\<exists>e. dets_to_formatted_mat dets = Inl e)) \<and>
   (num_classes s \<noteq> 0 \<and> l' \<in> set (labels s) \<and> map_of (snd det) l' = None \<longrightarrow>
      det_step i det s = Inl KeyError)"
proof (intro conjI impI)
  assume a: "d \<in> set (concat dets) \<and> snd d \<noteq> [] \<and> l \<in> set (first_nonempty_keys (concat dets)) \<and>
    map_of (snd d) l = None"
  show "\<exists>e. dets_to_formatted_mat dets = Inl e"
  proof (cases "imgs_loop 0 dets init_locals")
    case (Inl e)
    then show ?thesis by (simp add: dets_to_formatted_mat_def)
  next
    case (Inr s)
    have "labels_from init_locals (concat dets @ []) = first_nonempty_keys (concat dets)"
      by (simp add: labels_from_def init_locals_def)
    with imgs_loop_has_labels [OF Inr, of d l "[]"] a show ?thesis
      by simp
  qed
next
  assume "num_classes s \<noteq> 0 \<and> l' \<in> set (labels s) \<and> map_of (snd det) l' = None"
  then have "num_classes s \<noteq> 0" "l' \<in> set (labels s)" "map_of (snd det) l' = None"
    by blast+
  then show "det_step i det s = Inl KeyError"
    by (rule det_step_missing)
qed

theorem missing_label_fails_witness:
  "(\<exists>e. dets_to_formatted_mat
     [[(example_box, [(''cat'', 9 / 10), (''dog'', 1 / 10)])],
      [(example_box, [(''cat'', 1 / 2), (''bird'', 1 / 4)])]]
   = Inl e) \<and>
   det_step 1 (example_box, [(''cat'', 1 / 2), (''bird'', 1 / 4)])
     \<lparr>labels = [''cat'', ''dog''], num_classes = 2,
      dets_mat_list = [NDArray 7 [[0, 0, 2, 3, 1, 9 / 10, 1 / 10]]],
      img_bboxes = NDArray 4 [], img_scores = NDArray 2 [], img_objectness = []\<rparr>
   = Inl KeyError"
  using missing_label_fails [of "(example_box, [(''cat'', 1 / 2), (''bird'', 1 / 4)])"
      "[[(example_box, [(''cat'', 9 / 10), (''dog'', 1 / 10)])],
        [(example_box, [(''cat'', 1 / 2), (''bird'', 1 / 4)])]]"
      "''dog''"
      "\<lparr>labels = [''cat'', ''dog''], num_classes = 2,
      dets_mat_list = [NDArray 7 [[0, 0, 2, 3, 1, 9 / 10, 1 / 10]]],
      img_bboxes = NDArray 4 [], img_scores = NDArray 2 [], img_objectness = []\<rparr>"
      "''dog''" "(example_box, [(''cat'', 1 / 2), (''bird'', 1 / 4)])" 1]
  by simp

text \<open>
  The claim as stated fails on this batch: the second image's detection has no score for
  \<open>dog\<close>, and the caller gets the \<open>KeyError\<close>.
\<close>

theorem missing_label_counterexample:
  "dets_to_formatted_mat
     [[(example_box, [(''cat'', 9 / 10), (''dog'', 1 / 10)])], [(example_box, [(''cat'', 1 / 2)])]]
   = Inl KeyError"
  by (simp add: engine_defs)

section \<open>The single-class normalization\<close>

text \<open>
  Claim C2, as amended.  Applying the normalization to the objectness and the class-score
  vector it has produced leaves the class-score vector unchanged, and never fails.  The
  objectness is unchanged when the vector has no or several strictly positive scores;
  when it has exactly one (which the first application has set to 1.0) the objectness is
  overwritten with that score, that is with 1.0.
\<close>

theorem normalization_twice:
  assumes "single_class obj scores = Inr (obj', scores')"
  shows "single_class obj' scores' =
    Inr (if length (filter (\<lambda>score. 0 < score) scores') = 1 then 1 else obj', scores')"
proof (cases "length (filter (\<lambda>score. 0 < score) scores) = 1")
  case True
  then obtain ys z zs where s: "scores = ys @ z # zs" "0 < z"
     "\<forall>y\<in>set ys. \<not> 0 < y" "\<forall>y\<in>set zs. \<not> 0 < y"
    using filter_single_split [of "\<lambda>score. 0 < score" scores] by blast
  with assms have r: "scores' = ys @ 1 # zs"
    by (simp add: single_class_split)
  have 1: "single_class obj' (ys @ 1 # zs) = Inr (1, ys @ 1 # zs)"
    using s by (intro single_class_split) auto
  have "length (filter (\<lambda>score. 0 < score) (ys @ 1 # zs)) = 1"
    using s by (simp add: filter_empty_conv)
  with 1 r show ?thesis by simp
next
  case False
  with assms have "obj' = obj" "scores' = scores"
    by (simp_all add: single_class_def)
  with False show ?thesis by (simp add: single_class_def)
qed

theorem normalization_twice_witness:
  "single_class 1 [3 / 10, 0, 0] = Inr (3 / 10, [1, 0, 0]) \<and>
   single_class (3 / 10) [1, 0, 0] = Inr (1, [1, 0, 0])"
proof -
  have 1: "single_class 1 [3 / 10, 0, 0] = Inr (3 / 10, [1, 0, 0])"
    by (simp add: single_class_def)
  from normalization_twice [OF 1] show ?thesis using 1 by simp
qed

text \<open>
  The claim as stated fails: the detection with scores (0.9, 0) is normalized to
  objectness 0.9 and scores (1, 0); normalizing that again gives objectness 1, not 0.9.
\<close>

theorem normalization_idempotent_counterexample:
  "single_class 1 [9 / 10, 0] = Inr (9 / 10, [1, 0]) \<and>
   single_class (9 / 10) [1, 0] \<noteq> Inr (9 / 10, [1, 0])"
  by (simp add: single_class_def)

section \<open>Detections of the images before the labels are found\<close>

text \<open>
  Claim C3 does not hold of the code.  The first image has one detection, with an empty
  score map, so \<open>num_classes\<close> is still 0 when the second image's detection is reached;
  the slice assignment of lines 159--161 then puts an array with no row in the place of
  the first image's matrix.  The first row of slice 0 of the tensor is the padding row,
  not a row built from the detection with the box (0, 0, 2, 3).
\<close>

theorem earlier_detection_dropped:
  "dets_to_formatted_mat [[(example_box, [])], [(example_box, [(''cat'', 9 / 10)])]]
     = Inr [NDArray 6 [[1, 1, 1, 1, 0, 1]], NDArray 6 [[0, 0, 2, 3, 9 / 10, 1]]]"
  by (simp add: engine_defs)

text \<open>
  Claim C6 does not hold of the code, by the same slice assignment.  The first and the
  third image have one detection each and the second has none, so the maximum detection
  count is 1 and the first image reaches it; its slice is one padding row all the same.
\<close>

theorem full_image_padded:
  "dets_to_formatted_mat
     [[(example_box, [])], [], [(example_box, [(''cat'', 3 / 10), (''dog'', 3 / 5)])]]
     = Inr [NDArray 7 [[1, 1, 1, 1, 0, 1, 1]], NDArray 7 [[1, 1, 1, 1, 0, 1, 1]],
            NDArray 7 [[0, 0, 2, 3, 1, 3 / 10, 3 / 5]]]"
  by (simp add: engine_defs)

text \<open>
  Claim C4 does not hold of the tensor, by the same slice assignment.  The detection of
  the first image has no strictly positive class score (its score map is empty), so it
  should keep the objectness 1.0; the second image's detection empties the first image's
  matrix, and the only row of slice 0 is the padding row, with objectness 0.  For the
  detections of the images by whose end the labels are found, the rows of the tensor are
  normalized as the claim says: that is lemma \<open>engine_row_normalized\<close>.
\<close>

theorem zero_positive_detection_padded:
  "dets_to_formatted_mat [[(example_box, [])], [(example_box, ([] :: string score_dict))]]
     = Inr [NDArray 5 [[1, 1, 1, 1, 0]], NDArray 5 [[0, 0, 2, 3, 1]]]"
  by (simp add: engine_defs)

section \<open>The label list\<close>

text \<open>
  Claim C5, as amended.  Whenever the engine returns a tensor, the label list is the list
  of the score-map keys, in their order, of the first detection in iteration order
  (images in order, detections in order within an image) whose score map is not empty,
  and it is empty when there is no such detection, in particular when no image has a
  detection.  The same label ordering is applied to every image's matrix columns: every
  slice of the tensor has 4 + 1 + numClasses columns, and in every image by whose end
  some detection had a non-empty score map, the row of each detection is its box, an
  objectness and one class score per label, where the class score at index \<open>c\<close> is the
  detection's score for the \<open>c\<close>-th label of the list (1 in its place when it is the
  detection's only strictly positive score).
\<close>

theorem label_list_first_nonempty_detection:
  assumes "dets_to_formatted_mat dets = Inr t"
  shows "final_labels dets = Inr (first_nonempty_keys (concat dets)) \<and>
         ((\<forall>img_dets\<in>set dets. img_dets = []) \<longrightarrow> final_labels dets = Inr []) \<and>
         (\<forall>m\<in>set t. ncols m = 4 + 1 + length (first_nonempty_keys (concat dets))) \<and>
         (\<forall>i<length dets. first_nonempty_keys (concat (take (Suc i) dets)) \<noteq> [] \<longrightarrow>
            (\<forall>j<length (dets ! i). \<exists>scores obj cls.
               map (map_of (snd (dets ! i ! j))) (first_nonempty_keys (concat dets))
                 = map Some scores \<and>
               rows (t ! i) ! j
                 = min_vertex (fst (dets ! i ! j)) @ max_vertex (fst (dets ! i ! j))
                   @ [obj] @ cls \<and>
               length cls = length scores \<and>
               (\<forall>c<length scores.
                  cls ! c = (if length (filter (\<lambda>score. 0 < score) scores) = 1 \<and> 0 < scores ! c
                             then 1 else scores ! c))))"
proof -
  from assms obtain s where s: "imgs_loop 0 dets init_locals = Inr s"
    by (auto simp: dets_to_formatted_mat_def split: sum.splits)
  then have 1: "final_labels dets = Inr (first_nonempty_keys (concat dets))"
    by (simp add: final_labels_def imgs_loop_init_labels(1))
  have 2: "\<forall>m\<in>set t. ncols m = 4 + 1 + length (first_nonempty_keys (concat dets))"
    using assms by (auto dest: formatted_mat_ncols)
  have 3: "(\<forall>img_dets\<in>set dets. img_dets = []) \<longrightarrow> final_labels dets = Inr []"
  proof
    assume "\<forall>img_dets\<in>set dets. img_dets = []"
    then have "concat dets = []" by simp
    with 1 show "final_labels dets = Inr []" by simp
  qed
  have 4: "\<exists>scores obj cls.
       map (map_of (snd (dets ! i ! j))) (first_nonempty_keys (concat dets)) = map Some scores \<and>
       rows (t ! i) ! j
         = min_vertex (fst (dets ! i ! j)) @ max_vertex (fst (dets ! i ! j)) @ [obj] @ cls \<and>
       length cls = length scores \<and>
       (\<forall>c<length scores.
          cls ! c = (if length (filter (\<lambda>score. 0 < score) scores) = 1 \<and> 0 < scores ! c
                     then 1 else scores ! c))"
    if "i < length dets" "first_nonempty_keys (concat (take (Suc i) dets)) \<noteq> []"
      "j < length (dets ! i)" for i j
  proof -
    from engine_row [OF assms that(1,3,2)] obtain scores obj cls where
      a: "map (map_of (snd (dets ! i ! j))) (first_nonempty_keys (concat dets)) = map Some scores"
      and b: "single_class 1 scores = Inr (obj, cls)"
      and c: "rows (t ! i) ! j
         = min_vertex (fst (dets ! i ! j)) @ max_vertex (fst (dets ! i ! j)) @ [obj] @ cls"
      by (rule build_row_Inr)
    from single_class_columns [OF b] a c show ?thesis by blast
  qed
  from 1 2 3 4 show ?thesis by blast
qed

theorem label_list_first_nonempty_detection_witness:
  "dets_to_formatted_mat
     [[], [(example_box, [])], [(example_box, [(''cat'', 1 / 2), (''dog'', 0)])],
      [(example_box, [(''dog'', 1 / 5), (''cat'', 3 / 10)])]]
     = Inr [NDArray 7 [[1, 1, 1, 1, 0, 1, 1]], NDArray 7 [[1, 1, 1, 1, 0, 1, 1]],
            NDArray 7 [[0, 0, 2, 3, 1 / 2, 1, 0]], NDArray 7 [[0, 0, 2, 3, 1, 3 / 10, 1 / 5]]] \<and>
   final_labels
     [[], [(example_box, [])], [(example_box, [(''cat'', 1 / 2), (''dog'', 0)])],
      [(example_box, [(''dog'', 1 / 5), (''cat'', 3 / 10)])]]
     = Inr [''cat'', ''dog''] \<and>
   (\<exists>(obj :: real) cls. [0, 0, 2, 3, 1, 3 / 10, 1 / 5] = [0, 0, 2, 3] @ [obj] @ cls \<and>
      length cls = length [''cat'', ''dog''] \<and>
      map_of [(''dog'', 1 / 5), (''cat'', 3 / 10)] ''cat'' = Some (cls ! 0) \<and>
      map_of [(''dog'', 1 / 5), (''cat'', 3 / 10)] ''dog'' = Some (cls ! 1))"
proof -
  let ?D = "[[], [(example_box, [])], [(example_box, [(''cat'', 1 / 2), (''dog'', 0)])],
      [(example_box, [(''dog'', 1 / 5 :: real), (''cat'', 3 / 10)])]]"
  let ?T = "[NDArray 7 [[1, 1, 1, 1, 0, 1, 1]], NDArray 7 [[1, 1, 1, 1, 0, 1, 1]],
            NDArray 7 [[0, 0, 2, 3, 1 / 2, 1, 0]], NDArray 7 [[0, 0, 2, 3, 1, 3 / 10, 1 / 5]]]"
  have 1: "dets_to_formatted_mat ?D = Inr ?T"
    by (simp add: engine_defs)
  note inst = label_list_first_nonempty_detection [OF 1]
  from inst have 2: "final_labels ?D = Inr (first_nonempty_keys (concat ?D))"
    by (rule conjunct1)
  from inst have 3: "\<forall>i<length ?D. first_nonempty_keys (concat (take (Suc i) ?D)) \<noteq> [] \<longrightarrow>
            (\<forall>j<length (?D ! i). \<exists>scores obj cls.
               map (map_of (snd (?D ! i ! j))) (first_nonempty_keys (concat ?D))
                 = map Some scores \<and>
               rows (?T ! i) ! j
                 = min_vertex (fst (?D ! i ! j)) @ max_vertex (fst (?D ! i ! j))
                   @ [obj] @ cls \<and>
               length cls = length scores \<and>
               (\<forall>c<length scores.
                  cls ! c = (if length (filter (\<lambda>score. 0 < score) scores) = 1 \<and> 0 < scores ! c
                             then 1 else scores ! c)))"
    by blast
  have i: "3 < length ?D" by simp
  have k: "first_nonempty_keys (concat (take (Suc 3) ?D)) \<noteq> []" by (simp add: eval_nat_numeral)
  have j: "0 < length (?D ! 3)" by simp
  from 3 i k j obtain scores obj cls where
    a: "map (map_of (snd (?D ! 3 ! 0))) (first_nonempty_keys (concat ?D)) = map Some scores"
    and b: "rows (?T ! 3) ! 0
       = min_vertex (fst (?D ! 3 ! 0)) @ max_vertex (fst (?D ! 3 ! 0)) @ [obj] @ cls"
    and c: "length cls = length scores"
    and d: "\<forall>c<length scores.
        cls ! c = (if length (filter (\<lambda>score. 0 < score) scores) = 1 \<and> 0 < scores ! c
                   then 1 else scores ! c)"
    by blast
  from a have sc: "scores = [3 / 10, 1 / 5]"
    by (auto simp: map_eq_Cons_conv)
  from b have "[0, 0, 2, 3, 1, 3 / 10, 1 / 5] = [0, 0, 2, 3] @ [obj] @ cls"
    by (simp add: example_box_def)
  moreover from c sc have "length cls = length [''cat'', ''dog'']"
    by simp
  moreover from d sc have "cls ! 0 = 3 / 10" "cls ! 1 = 1 / 5"
    by simp_all
  then have "map_of [(''dog'', 1 / 5), (''cat'', 3 / 10)] ''cat'' = Some (cls ! 0)"
    "map_of [(''dog'', 1 / 5), (''cat'', 3 / 10)] ''dog'' = Some (cls ! 1)"
    by simp_all
  ultimately have "[0, 0, 2, 3, 1, 3 / 10, 1 / 5] = [0, 0, 2, 3] @ [obj] @ cls \<and>
      length cls = length [''cat'', ''dog''] \<and>
      map_of [(''dog'', 1 / 5), (''cat'', 3 / 10)] ''cat'' = Some (cls ! 0) \<and>
      map_of [(''dog'', 1 / 5), (''cat'', 3 / 10)] ''dog'' = Some (cls ! 1)"
    by blast
  then have "\<exists>(obj :: real) cls. [0, 0, 2, 3, 1, 3 / 10, 1 / 5] = [0, 0, 2, 3] @ [obj] @ cls \<and>
      length cls = length [''cat'', ''dog''] \<and>
      map_of [(''dog'', 1 / 5), (''cat'', 3 / 10)] ''cat'' = Some (cls ! 0) \<and>
      map_of [(''dog'', 1 / 5), (''cat'', 3 / 10)] ''dog'' = Some (cls ! 1)"
    by blast
  moreover from 2 have "final_labels ?D = Inr [''cat'', ''dog'']"
    by simp
  ultimately show ?thesis using 1 by blast
qed

text \<open>
  The claim as stated fails: the first image with a non-empty detection set is the first
  one, the score map of its detection has no key, and the engine ends with the label
  \<open>cat\<close> of the second image.
\<close>

theorem label_list_counterexample:
  "final_labels [[(example_box, [])], [(example_box, [(''cat'', 1 / 2)])]] = Inr [''cat''] \<and>
   spec_label_list [[(example_box, [])], [(example_box, [(''cat'', 1 / 2)])]] = []"
  by (simp add: engine_defs spec_label_list_def)

text \<open>
  Claim C7, as amended.  In \<^verbatim>\<open>_generate\<close> the label ordering is not computed jointly.
  The reference matrix is the caller's box, score and objectness arrays formatted as they
  are, so it has 4 + 1 + (the caller's number of score columns) columns; the occluded
  tensor is aligned on the detections of the occluded images alone, so its slices have
  4 + 1 + (the number of keys of their first non-empty score map) columns.  The saliency
  generator receives these two, and the masks.
\<close>

theorem generate_columns:
  assumes "generate perturber generator occlude_image_batch fill threads
             ref_image bboxes scores blackbox objectness = Inr sal"
  shows "\<exists>ref_dets_mat pert_dets_mat.
           format_detection bboxes scores objectness = Inr ref_dets_mat \<and>
           dets_to_formatted_mat
             (blackbox (occlude_image_batch ref_image (perturber ref_image) fill threads))
             = Inr pert_dets_mat \<and>
           sal = generator ref_dets_mat pert_dets_mat (perturber ref_image) \<and>
           ncols ref_dets_mat = 4 + 1 + ncols scores \<and>
           (\<forall>m\<in>set pert_dets_mat. ncols m = 4 + 1 + length (first_nonempty_keys (concat
              (blackbox (occlude_image_batch ref_image (perturber ref_image) fill threads)))))"
proof -
  let ?dets = "blackbox (occlude_image_batch ref_image (perturber ref_image) fill threads)"
  from assms obtain r p where
    r: "format_detection bboxes scores objectness = Inr r"
    and p: "dets_to_formatted_mat ?dets = Inr p"
    and sal: "sal = generator r p (perturber ref_image)"
    by (auto simp: generate_def Let_def split: sum.splits)
  from r have "ncols r = 4 + 1 + ncols scores"
    by (auto simp: format_detection_def Let_def split: if_splits)
  moreover have "\<forall>m\<in>set p. ncols m = 4 + 1 + length (first_nonempty_keys (concat ?dets))"
    using p by (auto dest: formatted_mat_ncols)
  ultimately show ?thesis using r p sal by blast
qed

theorem generate_columns_witness:
  "generate (\<lambda>img. [0 :: nat, 1])
     (\<lambda>ref_dets_mat pert_dets_mat masks. (ref_dets_mat, pert_dets_mat))
     (\<lambda>img masks fill threads. map (\<lambda>mask. img) masks) () ()
     (0 :: nat) (NDArray 4 [[0, 0, 2, 3]]) (NDArray 2 [[9 / 10, 1 / 10]])
     (\<lambda>imgs. map (\<lambda>img. [(example_box, [(''cat'', 1 / 2)])]) imgs) (Some [4 / 5])
   = Inr (NDArray 7 [[0, 0, 2, 3, 4 / 5, 9 / 10, 1 / 10]],
          [NDArray 6 [[0, 0, 2, 3, 1 / 2, 1]], NDArray 6 [[0, 0, 2, 3, 1 / 2, 1]]])"
proof -
  have 1: "generate (\<lambda>img. [0 :: nat, 1])
     (\<lambda>ref_dets_mat pert_dets_mat masks. (ref_dets_mat, pert_dets_mat))
     (\<lambda>img masks fill threads. map (\<lambda>mask. img) masks) () ()
     (0 :: nat) (NDArray 4 [[0, 0, 2, 3]]) (NDArray 2 [[9 / 10, 1 / 10]])
     (\<lambda>imgs. map (\<lambda>img. [(example_box, [(''cat'', 1 / 2)])]) imgs) (Some [4 / 5])
   = Inr (NDArray 7 [[0, 0, 2, 3, 4 / 5, 9 / 10, 1 / 10]],
          [NDArray 6 [[0, 0, 2, 3, 1 / 2, 1]], NDArray 6 [[0, 0, 2, 3, 1 / 2, 1]]])"
    by (simp add: generate_def engine_defs)
  from generate_columns [OF 1] show ?thesis using 1 by simp
qed

text \<open>
  The claim as stated fails: the caller gives one score column for the reference
  detection and the detector reports two classes on the occluded image; the generator
  then receives a reference matrix of 6 columns and an occluded tensor of 7 columns.
\<close>

theorem generate_columns_counterexample:
  "generate (\<lambda>img. [0 :: nat])
     (\<lambda>ref_dets_mat pert_dets_mat masks. (ncols ref_dets_mat, map ncols pert_dets_mat))
     (\<lambda>img masks fill threads. map (\<lambda>mask. img) masks) () ()
     (0 :: nat) (NDArray 4 [[0, 0, 2, 3]]) (NDArray 1 [[9 / 10]])
     (\<lambda>imgs. map (\<lambda>img. [(example_box, [(''cat'', 1 / 2), (''dog'', 1 / 2)])]) imgs) None
   = Inr (6, [7])"
  by (simp add: generate_def engine_defs)

section \<open>Batches without detections\<close>

text \<open>
  Claim C8.  For the empty batch (no per-image detection set at all) the engine raises an
  error instead of returning a tensor: \<^verbatim>\<open>max\<close> of the empty list of row counts fails.
\<close>

theorem empty_batch_fails: "dets_to_formatted_mat [] = Inl ValueError"
  by (simp add: dets_to_formatted_mat_def pad_matrices_def init_locals_def)

text \<open>
  Claim C9.  For every non-empty batch in which every image has no detection, the engine
  succeeds: it returns one slice of shape 0 x 5 per image, a tensor of shape
  (numImages, 0, 5), and its label list is empty (numClasses = 0).
\<close>

theorem all_empty_batch:
  fixes dets :: "'k detection list list"
  assumes "dets \<noteq> []" "\<forall>img_dets\<in>set dets. img_dets = []"
  shows "dets_to_formatted_mat dets = Inr (replicate (length dets) (NDArray 5 [])) \<and>
         tensor_shape (replicate (length dets) (NDArray 5 [])) = (length dets, 0, 5) \<and>
         final_labels dets = Inr []"
proof -
  define n where "n = length dets"
  from assms(2) have d: "dets = replicate n []"
    unfolding n_def by (simp add: replicate_length_same)
  from assms(1) have n: "0 < n"
    unfolding n_def by simp
  obtain s' :: "'k locals" where s': "imgs_loop 0 (replicate n []) init_locals = Inr s'"
    "num_classes s' = 0" "labels s' = []" "dets_mat_list s' = replicate n (NDArray 5 [])"
    using imgs_loop_no_detection [of init_locals 0 n]
    by (auto simp: init_locals_def)
  have "pad_matrices s' = Inr (replicate n (NDArray 5 []))"
    using s' n by (simp add: pad_matrices_def nrows_def py_max_replicate pad_loop_empty)
  with s'(1) have 1:
    "dets_to_formatted_mat (replicate n ([] :: 'k detection list)) = Inr (replicate n (NDArray 5 []))"
    by (simp add: dets_to_formatted_mat_def)
  have 2: "tensor_shape (replicate n (NDArray 5 [])) = (n, 0, 5)"
    using n by (cases n) (simp_all add: tensor_shape_def nrows_def)
  have 3: "final_labels (replicate n ([] :: 'k detection list)) = Inr []"
    using s'(1,3) by (simp add: final_labels_def)
  from 1 2 3 show ?thesis
    unfolding d by simp
qed

theorem all_empty_batch_witness:
  "dets_to_formatted_mat [[], [], ([] :: string detection list)]
     = Inr [NDArray 5 [], NDArray 5 [], NDArray 5 []] \<and>
   tensor_shape [NDArray 5 [], NDArray 5 [], NDArray 5 []] = (3, 0, 5) \<and>
   final_labels [[], [], ([] :: string detection list)] = Inr []"
  using all_empty_batch [of "[[], [], ([] :: string detection list)]"]
  by (simp add: numeral_3_eq_3)

section \<open>Labels outside the label list\<close>

text \<open>
  Claim C10.  Labels of a score map that are not in the canonical label list are ignored:
  the engine returns the same result, tensor or error, as on the batch in which every
  score map is cut down to the canonical labels, so such a label raises no error and
  contributes nothing to any row.
\<close>

theorem extra_labels_ignored:
  "dets_to_formatted_mat (map (map (restrict_det (first_nonempty_keys (concat dets)))) dets)
   = dets_to_formatted_mat dets"
proof -
  have "labels_from init_locals (concat dets @ []) = first_nonempty_keys (concat dets)"
    by (simp add: labels_from_def init_locals_def)
  with imgs_loop_restrict [of 0 init_locals dets "[]"] show ?thesis
    by (simp add: dets_to_formatted_mat_def)
qed

theorem extra_labels_ignored_witness:
  "dets_to_formatted_mat
     [[(example_box, [(''cat'', 9 / 10), (''dog'', 0)])],
      [(example_box, [(''dog'', 0), (''bird'', 3), (''cat'', 0)])]]
   = dets_to_formatted_mat
     [[(example_box, [(''cat'', 9 / 10), (''dog'', 0)])],
      [(example_box, [(''dog'', 0), (''cat'', 0)])]]"
  using extra_labels_ignored [of
     "[[(example_box, [(''cat'', 9 / 10), (''dog'', 0)])],
      [(example_box, [(''dog'', 0), (''bird'', 3), (''cat'', 0)])]]"]
  by (simp add: restrict_det_def)

end
